theory Spec2Isabelle
  imports Main "HOL-Library.Word" "HOL-Library.Signed_Division"
begin

section \<open>Machine integers of \<^verbatim>\<open>main.cpp\<close>\<close>

text \<open>
  The array elements, \<^verbatim>\<open>max_even\<close> and \<^verbatim>\<open>atomic_max\<close> are C++ \<^verbatim>\<open>int\<close>
  (32 bits, two's complement); \<^verbatim>\<open>sum_even\<close>, \<^verbatim>\<open>atomic_sum\<close> and the three results
  are \<^verbatim>\<open>long long\<close> (64 bits). The conversion of an \<^verbatim>\<open>int\<close> operand to
  \<^verbatim>\<open>long long\<close> is the sign extension \<open>scast\<close>; the comparison \<^verbatim>\<open>x > max_even\<close> is
  the signed order \<open><s\<close>. Addition on words wraps, as \<^verbatim>\<open>fetch_add\<close> on an atomic does.
  An addition on a plain \<^verbatim>\<open>long long\<close> must not leave the signed range: the lemmas
  \<open>sequential_add_exact\<close> and \<open>mutex_store_exact\<close> show that none does when the length
  of the array fits an \<^verbatim>\<open>int\<close>.
\<close>

type_synonym int32 = "32 word"
type_synonym int64 = "64 word"

text \<open>\<^verbatim>\<open>x % 2 == 0\<close>: the remainder of C++ truncates towards zero (\<open>smod\<close>).\<close>

definition is_even :: "int32 \<Rightarrow> bool" where
  "is_even x = (sint x smod 2 = 0)"

section \<open>The variables of \<^verbatim>\<open>main\<close>\<close>

record memory =
  arr :: "int32 list"
  sum_even :: int64
  max_even :: int32
  mtx :: bool
  atomic_sum :: int64
  atomic_max :: int32

text \<open>
  The memory when the sequential section starts (lines 27 to 33). The mutex and the two
  atomics are declared later in \<^verbatim>\<open>main\<close>, where the sections below initialise them.
\<close>

definition initial :: "int32 list \<Rightarrow> memory" where
  "initial xs = \<lparr>arr = xs, sum_even = 0, max_even = - 1, mtx = False,
     atomic_sum = 0, atomic_max = - 1\<rparr>"

text \<open>\<^verbatim>\<open>2LL * max_even - sum_even\<close> (lines 43, 82 and 118), in 64 bits.\<close>

definition combine :: "int32 \<Rightarrow> int64 \<Rightarrow> int64" where
  "combine m s = 2 * scast m - s"

section \<open>Sequential version (lines 32 to 43)\<close>

text \<open>
  The body of \<^verbatim>\<open>for (int x : arr)\<close> for one element \<open>x\<close>, a copy of the element, and
  the loop over the array in order.
\<close>

definition seq_body :: "memory \<Rightarrow> int32 \<Rightarrow> memory" where
  "seq_body m x =
     (if is_even x then
        (let m1 = m\<lparr>sum_even := sum_even m + scast x\<rparr>
         in if max_even m1 <s x then m1\<lparr>max_even := x\<rparr> else m1)
      else m)"

definition sequential :: "memory \<Rightarrow> memory" where
  "sequential m = foldl seq_body (m\<lparr>sum_even := 0, max_even := - 1\<rparr>) (arr m)"

section \<open>Division of the array into chunks (lines 60 to 64)\<close>

text \<open>
  \<open>n\<close> is the array size and \<open>num_threads\<close> the number of threads, both constants of
  \<^verbatim>\<open>main\<close> (10000000 and 32) and parameters here; they and the thread number \<open>t\<close> are
  non-negative \<^verbatim>\<open>int\<close>s, modelled as \<open>nat\<close>.
\<close>

definition chunk :: "nat \<Rightarrow> nat \<Rightarrow> nat" where
  "chunk n num_threads = n div num_threads"

definition start_idx :: "nat \<Rightarrow> nat \<Rightarrow> nat \<Rightarrow> nat" where
  "start_idx n num_threads t = t * chunk n num_threads"

definition end_idx :: "nat \<Rightarrow> nat \<Rightarrow> nat \<Rightarrow> nat" where
  "end_idx n num_threads t =
     (if t = num_threads - 1 then n else start_idx n num_threads t + chunk n num_threads)"

section \<open>Version with a mutex (lines 53 to 82)\<close>

text \<open>
  A thread is its captured \<^verbatim>\<open>start_idx\<close> and \<^verbatim>\<open>end_idx\<close>, its locals \<^verbatim>\<open>i\<close> and
  \<^verbatim>\<open>x\<close>, the value it has loaded for \<^verbatim>\<open>sum_even += x\<close>, and the place it has reached.
  The places: the loop head; waiting for the lock; then, inside the \<^verbatim>\<open>lock_guard\<close>
  scope, the load and the store of \<^verbatim>\<open>sum_even += x\<close>, the comparison and the store of
  \<^verbatim>\<open>if (x > max_even) max_even = x\<close>, and the release at the end of the scope.
  All threads exist from the start: a thread that \<^verbatim>\<open>main\<close> has not created yet is a
  thread that has not taken a step yet.
\<close>

datatype mutex_pc =
  M_for | M_lock | M_load_sum | M_store_sum | M_cmp_max | M_store_max | M_unlock

record mutex_worker =
  m_start :: nat
  m_end :: nat
  m_i :: nat
  m_x :: int32
  m_tmp :: int64
  m_pc :: mutex_pc

record mutex_state =
  mm :: memory
  mthreads :: "mutex_worker list"

definition mutex_spawn :: "nat \<Rightarrow> nat \<Rightarrow> nat \<Rightarrow> mutex_worker" where
  "mutex_spawn n num_threads t =
     \<lparr>m_start = start_idx n num_threads t, m_end = end_idx n num_threads t,
      m_i = start_idx n num_threads t, m_x = 0, m_tmp = 0, m_pc = M_for\<rparr>"

definition mutex_init :: "nat \<Rightarrow> memory \<Rightarrow> mutex_state" where
  "mutex_init num_threads m =
     \<lparr>mm = m\<lparr>sum_even := 0, max_even := - 1, mtx := False\<rparr>,
      mthreads = map (mutex_spawn (length (arr m)) num_threads) [0..<num_threads]\<rparr>"

text \<open>
  One step of thread \<open>t\<close>. A thread that waits for a held lock, or whose loop has ended,
  does not move. A read \<^verbatim>\<open>arr[i]\<close> beyond the array has no defined behaviour: the model
  gives the thread no step there, so such a thread never finishes.
\<close>

definition mutex_step :: "nat \<Rightarrow> mutex_state \<Rightarrow> mutex_state" where
  "mutex_step t s =
     (if length (mthreads s) \<le> t then s
      else
        let w = mthreads s ! t; m = mm s in
        case m_pc w of
          M_for \<Rightarrow>
            if m_i w < m_end w \<and> m_i w < length (arr m) then
              (let x = arr m ! m_i w in
               if is_even x
               then s\<lparr>mthreads := (mthreads s)[t := w\<lparr>m_x := x, m_pc := M_lock\<rparr>]\<rparr>
               else s\<lparr>mthreads := (mthreads s)[t := w\<lparr>m_x := x, m_i := m_i w + 1\<rparr>]\<rparr>)
            else s
        | M_lock \<Rightarrow>
            if mtx m then s
            else s\<lparr>mm := m\<lparr>mtx := True\<rparr>,
                   mthreads := (mthreads s)[t := w\<lparr>m_pc := M_load_sum\<rparr>]\<rparr>
        | M_load_sum \<Rightarrow>
            s\<lparr>mthreads := (mthreads s)[t := w\<lparr>m_tmp := sum_even m, m_pc := M_store_sum\<rparr>]\<rparr>
        | M_store_sum \<Rightarrow>
            s\<lparr>mm := m\<lparr>sum_even := m_tmp w + scast (m_x w)\<rparr>,
              mthreads := (mthreads s)[t := w\<lparr>m_pc := M_cmp_max\<rparr>]\<rparr>
        | M_cmp_max \<Rightarrow>
            if max_even m <s m_x w
            then s\<lparr>mthreads := (mthreads s)[t := w\<lparr>m_pc := M_store_max\<rparr>]\<rparr>
            else s\<lparr>mthreads := (mthreads s)[t := w\<lparr>m_pc := M_unlock\<rparr>]\<rparr>
        | M_store_max \<Rightarrow>
            s\<lparr>mm := m\<lparr>max_even := m_x w\<rparr>,
              mthreads := (mthreads s)[t := w\<lparr>m_pc := M_unlock\<rparr>]\<rparr>
        | M_unlock \<Rightarrow>
            s\<lparr>mm := m\<lparr>mtx := False\<rparr>,
              mthreads := (mthreads s)[t := w\<lparr>m_i := m_i w + 1, m_pc := M_for\<rparr>]\<rparr>)"

text \<open>A schedule names the thread that takes each step, in order.\<close>

definition mutex_run :: "nat list \<Rightarrow> mutex_state \<Rightarrow> mutex_state" where
  "mutex_run sched s = fold mutex_step sched s"

text \<open>\<^verbatim>\<open>th.join()\<close> returns for every thread: each has left its loop.\<close>

definition mutex_joined :: "mutex_state \<Rightarrow> bool" where
  "mutex_joined s = list_all (\<lambda>w. m_pc w = M_for \<and> \<not> m_i w < m_end w) (mthreads s)"

text \<open>
  The whole section under a schedule: the memory after the joins, or \<open>None\<close> when the
  schedule ends before every thread has finished.
\<close>

definition lock_based :: "nat \<Rightarrow> nat list \<Rightarrow> memory \<Rightarrow> memory option" where
  "lock_based num_threads sched m =
     (let s = mutex_run sched (mutex_init num_threads m)
      in if mutex_joined s then Some (mm s) else None)"

section \<open>Version with atomic variables and CAS (lines 92 to 118)\<close>

text \<open>
  The places of a thread: the loop head; \<^verbatim>\<open>atomic_sum.fetch_add(x)\<close>;
  \<^verbatim>\<open>atomic_max.load()\<close>; and the head of the \<^verbatim>\<open>while\<close> loop, which tests
  \<^verbatim>\<open>x > current_max\<close> and then calls \<^verbatim>\<open>compare_exchange_weak(current_max, x)\<close>.
  The model is the interleaving of these steps: each atomic operation is one step on
  the current value of its variable, and a load returns the value stored last.
\<close>

datatype atomic_pc = A_for | A_fetch_add | A_load | A_cas

record atomic_worker =
  a_start :: nat
  a_end :: nat
  a_i :: nat
  a_x :: int32
  a_current_max :: int32
  a_pc :: atomic_pc

record atomic_state =
  am :: memory
  athreads :: "atomic_worker list"

definition atomic_spawn :: "nat \<Rightarrow> nat \<Rightarrow> nat \<Rightarrow> atomic_worker" where
  "atomic_spawn n num_threads t =
     \<lparr>a_start = start_idx n num_threads t, a_end = end_idx n num_threads t,
      a_i = start_idx n num_threads t, a_x = 0, a_current_max = 0, a_pc = A_for\<rparr>"

definition atomic_init :: "nat \<Rightarrow> memory \<Rightarrow> atomic_state" where
  "atomic_init num_threads m =
     \<lparr>am = m\<lparr>atomic_sum := 0, atomic_max := - 1\<rparr>,
      athreads = map (atomic_spawn (length (arr m)) num_threads) [0..<num_threads]\<rparr>"

text \<open>
  One step of thread \<open>t\<close>. \<open>spurious\<close> is read only by \<^verbatim>\<open>compare_exchange_weak\<close>, which
  may fail although the value is the expected one; a failed exchange stores the value
  it saw in \<^verbatim>\<open>current_max\<close>.
\<close>

definition atomic_step :: "nat \<times> bool \<Rightarrow> atomic_state \<Rightarrow> atomic_state" where
  "atomic_step e s =
     (let t = fst e; spurious = snd e in
      if length (athreads s) \<le> t then s
      else
        let w = athreads s ! t; m = am s in
        case a_pc w of
          A_for \<Rightarrow>
            if a_i w < a_end w \<and> a_i w < length (arr m) then
              (let x = arr m ! a_i w in
               if is_even x
               then s\<lparr>athreads := (athreads s)[t := w\<lparr>a_x := x, a_pc := A_fetch_add\<rparr>]\<rparr>
               else s\<lparr>athreads := (athreads s)[t := w\<lparr>a_x := x, a_i := a_i w + 1\<rparr>]\<rparr>)
            else s
        | A_fetch_add \<Rightarrow>
            s\<lparr>am := m\<lparr>atomic_sum := atomic_sum m + scast (a_x w)\<rparr>,
              athreads := (athreads s)[t := w\<lparr>a_pc := A_load\<rparr>]\<rparr>
        | A_load \<Rightarrow>
            s\<lparr>athreads := (athreads s)[t := w\<lparr>a_current_max := atomic_max m, a_pc := A_cas\<rparr>]\<rparr>
        | A_cas \<Rightarrow>
            if a_current_max w <s a_x w then
              (if atomic_max m = a_current_max w \<and> \<not> spurious
               then s\<lparr>am := m\<lparr>atomic_max := a_x w\<rparr>,
                      athreads := (athreads s)[t := w\<lparr>a_i := a_i w + 1, a_pc := A_for\<rparr>]\<rparr>
               else s\<lparr>athreads := (athreads s)[t := w\<lparr>a_current_max := atomic_max m\<rparr>]\<rparr>)
            else s\<lparr>athreads := (athreads s)[t := w\<lparr>a_i := a_i w + 1, a_pc := A_for\<rparr>]\<rparr>)"

definition atomic_run :: "(nat \<times> bool) list \<Rightarrow> atomic_state \<Rightarrow> atomic_state" where
  "atomic_run sched s = fold atomic_step sched s"

definition atomic_joined :: "atomic_state \<Rightarrow> bool" where
  "atomic_joined s = list_all (\<lambda>w. a_pc w = A_for \<and> \<not> a_i w < a_end w) (athreads s)"

definition lock_free :: "nat \<Rightarrow> (nat \<times> bool) list \<Rightarrow> memory \<Rightarrow> memory option" where
  "lock_free num_threads sched m =
     (let s = atomic_run sched (atomic_init num_threads m)
      in if atomic_joined s then Some (am s) else None)"

section \<open>The three sections in order\<close>

text \<open>
  What \<^verbatim>\<open>main\<close> prints for each version, and the array at the end. \<open>None\<close> when a
  schedule ends before the joins of its section return.
\<close>

record report =
  result_seq :: int64
  max_seq :: int32
  result_mutex :: int64
  max_mutex :: int32
  result_atomic :: int64
  max_atomic :: int32
  final_arr :: "int32 list"

definition main :: "nat \<Rightarrow> nat list \<Rightarrow> (nat \<times> bool) list \<Rightarrow> int32 list \<Rightarrow> report option" where
  "main num_threads sched_m sched_a xs =
     (let m1 = sequential (initial xs) in
      case lock_based num_threads sched_m m1 of
        None \<Rightarrow> None
      | Some m2 \<Rightarrow>
          (case lock_free num_threads sched_a m2 of
             None \<Rightarrow> None
           | Some m3 \<Rightarrow>
               Some \<lparr>result_seq = combine (max_even m1) (sum_even m1),
                     max_seq = max_even m1,
                     result_mutex = combine (max_even m2) (sum_even m2),
                     max_mutex = max_even m2,
                     result_atomic = combine (atomic_max m3) (atomic_sum m3),
                     max_atomic = atomic_max m3,
                     final_arr = arr m3\<rparr>))"

section \<open>Notions for the proofs\<close>

text \<open>
  None of the definitions of this section is part of the program. They state what the
  program computes (the sum and the maximum of the even elements), the invariants of the
  two concurrent sections, and the measures that show the threads can always finish.
\<close>

text \<open>What an element adds to the sum: itself when it is even, nothing otherwise.\<close>

definition contrib :: "int32 \<Rightarrow> int64" where
  "contrib x = (if is_even x then scast x else 0)"

definition contrib_int :: "int32 \<Rightarrow> int" where
  "contrib_int x = (if is_even x then sint x else 0)"

text \<open>
  \<open>m\<close> is what the updates \<^verbatim>\<open>if (x > max) max = x\<close> leave, started at \<open>-1\<close>, once every
  even element has been offered: at least \<open>-1\<close>, at least every even element, and one of
  these values itself.
\<close>

definition max_spec :: "int32 list \<Rightarrow> int32 \<Rightarrow> bool" where
  "max_spec xs m \<longleftrightarrow>
     - 1 \<le>s m \<and> (\<forall>i<length xs. is_even (xs ! i) \<longrightarrow> xs ! i \<le>s m) \<and>
     (m = - 1 \<or> (\<exists>j<length xs. is_even (xs ! j) \<and> xs ! j = m))"

text \<open>The sum of the even elements at the indices from \<open>a\<close> up to, not including, \<open>b\<close>.\<close>

definition seg_sum :: "int32 list \<Rightarrow> nat \<Rightarrow> nat \<Rightarrow> int64" where
  "seg_sum xs a b = (\<Sum>i = a..<b. contrib (xs ! i))"

text \<open>
  The lock-based section. \<open>in_cs\<close>: the thread holds the lock. \<open>m_added\<close> and
  \<open>m_maxed\<close>: whether the element at \<open>i\<close> has already been added to \<^verbatim>\<open>sum_even\<close>
  and offered to \<^verbatim>\<open>max_even\<close>.
\<close>

fun in_cs :: "mutex_pc \<Rightarrow> bool" where
  "in_cs M_for = False"
| "in_cs M_lock = False"
| "in_cs M_load_sum = True"
| "in_cs M_store_sum = True"
| "in_cs M_cmp_max = True"
| "in_cs M_store_max = True"
| "in_cs M_unlock = True"

fun m_added :: "mutex_pc \<Rightarrow> nat" where
  "m_added M_cmp_max = 1"
| "m_added M_store_max = 1"
| "m_added M_unlock = 1"
| "m_added M_for = 0"
| "m_added M_lock = 0"
| "m_added M_load_sum = 0"
| "m_added M_store_sum = 0"

fun m_maxed :: "mutex_pc \<Rightarrow> nat" where
  "m_maxed M_unlock = 1"
| "m_maxed M_for = 0"
| "m_maxed M_lock = 0"
| "m_maxed M_load_sum = 0"
| "m_maxed M_store_sum = 0"
| "m_maxed M_cmp_max = 0"
| "m_maxed M_store_max = 0"

definition mutex_worker_ok :: "int32 list \<Rightarrow> nat \<Rightarrow> nat \<Rightarrow> mutex_worker \<Rightarrow> bool" where
  "mutex_worker_ok xs W t w \<longleftrightarrow>
     m_start w = start_idx (length xs) W t \<and> m_end w = end_idx (length xs) W t \<and>
     m_start w \<le> m_i w \<and> m_i w \<le> m_end w \<and>
     (m_pc w \<noteq> M_for \<longrightarrow> m_i w < m_end w \<and> m_x w = xs ! m_i w \<and> is_even (m_x w))"

definition mutex_wf :: "int32 list \<Rightarrow> nat \<Rightarrow> mutex_state \<Rightarrow> bool" where
  "mutex_wf xs W s \<longleftrightarrow>
     arr (mm s) = xs \<and> length (mthreads s) = W \<and>
     (\<forall>t<W. mutex_worker_ok xs W t (mthreads s ! t))"

definition mutex_excl :: "mutex_state \<Rightarrow> bool" where
  "mutex_excl s \<longleftrightarrow>
     (\<forall>t<length (mthreads s). \<forall>t'<length (mthreads s).
        in_cs (m_pc (mthreads s ! t)) \<longrightarrow> in_cs (m_pc (mthreads s ! t')) \<longrightarrow> t = t') \<and>
     (mtx (mm s) \<longleftrightarrow> (\<exists>t<length (mthreads s). in_cs (m_pc (mthreads s ! t))))"

definition mutex_sum_ok :: "int32 list \<Rightarrow> mutex_state \<Rightarrow> bool" where
  "mutex_sum_ok xs s \<longleftrightarrow>
     sum_even (mm s) =
       sum_list (map (\<lambda>w. seg_sum xs (m_start w) (m_i w + m_added (m_pc w))) (mthreads s)) \<and>
     (\<forall>t<length (mthreads s). m_pc (mthreads s ! t) = M_store_sum \<longrightarrow>
        m_tmp (mthreads s ! t) = sum_even (mm s))"

definition mutex_max_ok :: "int32 list \<Rightarrow> mutex_state \<Rightarrow> bool" where
  "mutex_max_ok xs s \<longleftrightarrow>
     - 1 \<le>s max_even (mm s) \<and>
     (\<forall>t<length (mthreads s). \<forall>i. m_start (mthreads s ! t) \<le> i \<longrightarrow>
        i < m_i (mthreads s ! t) + m_maxed (m_pc (mthreads s ! t)) \<longrightarrow>
        is_even (xs ! i) \<longrightarrow> xs ! i \<le>s max_even (mm s)) \<and>
     (max_even (mm s) = - 1 \<or> (\<exists>j<length xs. is_even (xs ! j) \<and> xs ! j = max_even (mm s))) \<and>
     (\<forall>t<length (mthreads s). m_pc (mthreads s ! t) = M_store_max \<longrightarrow>
        max_even (mm s) <s m_x (mthreads s ! t))"

definition mutex_inv :: "int32 list \<Rightarrow> nat \<Rightarrow> mutex_state \<Rightarrow> bool" where
  "mutex_inv xs W s \<longleftrightarrow>
     mutex_wf xs W s \<and> mutex_excl s \<and> mutex_sum_ok xs s \<and> mutex_max_ok xs s"

text \<open>The steps a thread still has to take, at most: seven for each remaining element.\<close>

fun m_rank :: "mutex_pc \<Rightarrow> nat" where
  "m_rank M_for = 0"
| "m_rank M_lock = 1"
| "m_rank M_load_sum = 2"
| "m_rank M_store_sum = 3"
| "m_rank M_cmp_max = 4"
| "m_rank M_store_max = 5"
| "m_rank M_unlock = 6"

definition m_left :: "mutex_worker \<Rightarrow> nat" where
  "m_left w = 7 * (m_end w - m_i w) - m_rank (m_pc w)"

definition mutex_measure :: "mutex_state \<Rightarrow> nat" where
  "mutex_measure s = sum_list (map m_left (mthreads s))"

text \<open>The lock-free section: the same invariants, without a lock.\<close>

fun a_added :: "atomic_pc \<Rightarrow> nat" where
  "a_added A_for = 0"
| "a_added A_fetch_add = 0"
| "a_added A_load = 1"
| "a_added A_cas = 1"

definition atomic_worker_ok :: "int32 list \<Rightarrow> nat \<Rightarrow> nat \<Rightarrow> atomic_worker \<Rightarrow> bool" where
  "atomic_worker_ok xs W t w \<longleftrightarrow>
     a_start w = start_idx (length xs) W t \<and> a_end w = end_idx (length xs) W t \<and>
     a_start w \<le> a_i w \<and> a_i w \<le> a_end w \<and>
     (a_pc w \<noteq> A_for \<longrightarrow> a_i w < a_end w \<and> a_x w = xs ! a_i w \<and> is_even (a_x w))"

definition atomic_wf :: "int32 list \<Rightarrow> nat \<Rightarrow> atomic_state \<Rightarrow> bool" where
  "atomic_wf xs W s \<longleftrightarrow>
     arr (am s) = xs \<and> length (athreads s) = W \<and>
     (\<forall>t<W. atomic_worker_ok xs W t (athreads s ! t))"

definition atomic_sum_ok :: "int32 list \<Rightarrow> atomic_state \<Rightarrow> bool" where
  "atomic_sum_ok xs s \<longleftrightarrow>
     atomic_sum (am s) =
       sum_list (map (\<lambda>w. seg_sum xs (a_start w) (a_i w + a_added (a_pc w))) (athreads s))"

definition atomic_max_ok :: "int32 list \<Rightarrow> atomic_state \<Rightarrow> bool" where
  "atomic_max_ok xs s \<longleftrightarrow>
     - 1 \<le>s atomic_max (am s) \<and>
     (\<forall>t<length (athreads s). \<forall>i. a_start (athreads s ! t) \<le> i \<longrightarrow>
        i < a_i (athreads s ! t) \<longrightarrow> is_even (xs ! i) \<longrightarrow> xs ! i \<le>s atomic_max (am s)) \<and>
     (atomic_max (am s) = - 1 \<or> (\<exists>j<length xs. is_even (xs ! j) \<and> xs ! j = atomic_max (am s))) \<and>
     (\<forall>t<length (athreads s). a_pc (athreads s ! t) = A_cas \<longrightarrow>
        a_current_max (athreads s ! t) \<le>s atomic_max (am s))"

definition atomic_inv :: "int32 list \<Rightarrow> nat \<Rightarrow> atomic_state \<Rightarrow> bool" where
  "atomic_inv xs W s \<longleftrightarrow> atomic_wf xs W s \<and> atomic_sum_ok xs s \<and> atomic_max_ok xs s"

fun a_rank :: "atomic_pc \<Rightarrow> nat" where
  "a_rank A_for = 0"
| "a_rank A_fetch_add = 1"
| "a_rank A_load = 2"
| "a_rank A_cas = 3"

definition a_left :: "atomic_worker \<Rightarrow> nat" where
  "a_left w = 4 * (a_end w - a_i w) - a_rank (a_pc w)"

definition atomic_measure :: "atomic_state \<Rightarrow> nat" where
  "atomic_measure s = sum_list (map a_left (athreads s))"

text \<open>
  The sum of the even elements and the maximum even element as mathematical integers.
  \<open>claimed_max\<close> follows the words of the specification: the true maximum even
  element, or \<open>-1\<close> when there is no even element.
\<close>

definition even_sum :: "int32 list \<Rightarrow> int" where
  "even_sum xs = sum_list (map sint (filter is_even xs))"

definition claimed_max :: "int32 list \<Rightarrow> int" where
  "claimed_max xs =
     (if filter is_even xs = [] then - 1 else Max (sint ` set (filter is_even xs)))"

text \<open>The same sum as a mathematical integer.\<close>

definition seg_sum_int :: "int32 list \<Rightarrow> nat \<Rightarrow> nat \<Rightarrow> int" where
  "seg_sum_int xs a b = (\<Sum>i = a..<b. contrib_int (xs ! i))"

section \<open>Lemmas\<close>

subsection \<open>The chunks\<close>

lemma start_le_end: "t < W \<Longrightarrow> start_idx n W t \<le> end_idx n W t"
proof -
  assume t: "t < W"
  have "(W - 1) * (n div W) \<le> W * (n div W)" by (simp add: mult_le_mono1)
  also have "\<dots> \<le> n" by simp
  finally show ?thesis using t by (auto simp: end_idx_def start_idx_def chunk_def)
qed

lemma start_mono: "t \<le> t' \<Longrightarrow> start_idx n W t \<le> start_idx n W t'"
  by (simp add: start_idx_def)

lemma end_eq_start_Suc: "Suc t < W \<Longrightarrow> end_idx n W t = start_idx n W (Suc t)"
  by (auto simp: end_idx_def start_idx_def)

lemma end_last: "0 < W \<Longrightarrow> end_idx n W (W - 1) = n"
  by (simp add: end_idx_def)

lemma start_0: "start_idx n W 0 = 0"
  by (simp add: start_idx_def)

lemma end_le_n: "t < W \<Longrightarrow> end_idx n W t \<le> n"
proof (cases "t = W - 1")
  case True then show ?thesis by (simp add: end_idx_def)
next
  case False
  assume "t < W"
  with False have "Suc t < W" by arith
  then have "Suc t * (n div W) \<le> W * (n div W)" by (intro mult_le_mono1) simp
  also have "\<dots> \<le> n" by simp
  finally show ?thesis using False by (simp add: end_idx_def start_idx_def chunk_def)
qed

lemma end_le_start: "t < t' \<Longrightarrow> t' < W \<Longrightarrow> end_idx n W t \<le> start_idx n W t'"
proof -
  assume a: "t < t'" "t' < W"
  then have "end_idx n W t = start_idx n W (Suc t)" by (simp add: end_eq_start_Suc)
  also have "\<dots> \<le> start_idx n W t'" using a by (intro start_mono) simp
  finally show ?thesis .
qed

lemma chunks_prefix: "Suc k \<le> W \<Longrightarrow> (\<Union>t<Suc k. {start_idx n W t ..< end_idx n W t}) = {0 ..< end_idx n W k}"
proof (induction k)
  case 0 then show ?case by (simp add: start_0 lessThan_Suc)
next
  case (Suc k)
  then have ih: "(\<Union>t<Suc k. {start_idx n W t ..< end_idx n W t}) = {0 ..< end_idx n W k}" by simp
  from Suc.prems have e: "end_idx n W k = start_idx n W (Suc k)" by (simp add: end_eq_start_Suc)
  have le: "start_idx n W (Suc k) \<le> end_idx n W (Suc k)" using Suc.prems by (simp add: start_le_end)
  have "(\<Union>t<Suc (Suc k). {start_idx n W t ..< end_idx n W t})
      = (\<Union>t<Suc k. {start_idx n W t ..< end_idx n W t}) \<union> {start_idx n W (Suc k) ..< end_idx n W (Suc k)}"
    by (subst lessThan_Suc) auto
  also have "\<dots> = {0 ..< start_idx n W (Suc k)} \<union> {start_idx n W (Suc k) ..< end_idx n W (Suc k)}"
    by (simp only: ih e)
  also have "\<dots> = {0 ..< end_idx n W (Suc k)}" using le by auto
  finally show ?case .
qed

lemma chunks_cover: "0 < W \<Longrightarrow> (\<Union>t<W. {start_idx n W t ..< end_idx n W t}) = {0 ..< n}"
proof -
  assume "0 < W"
  then obtain k where k: "W = Suc k" by (cases W) auto
  have "end_idx n W k = n" using k by (simp add: end_idx_def)
  then show ?thesis using chunks_prefix[of k W n] k by simp
qed

lemma chunks_disjoint: "t < W \<Longrightarrow> t' < W \<Longrightarrow> t \<noteq> t' \<Longrightarrow> {start_idx n W t ..< end_idx n W t} \<inter> {start_idx n W t' ..< end_idx n W t'} = {}"
proof -
  assume a: "t < W" "t' < W" "t \<noteq> t'"
  then consider "t < t'" | "t' < t" by arith
  then show ?thesis
  proof cases
    case 1 then show ?thesis using end_le_start[of t t' W n] a by auto
  next
    case 2 then show ?thesis using end_le_start[of t' t W n] a by auto
  qed
qed

subsection \<open>Evenness and signed arithmetic\<close>

lemma smod_2_eq_0_iff: "(k::int) smod 2 = 0 \<longleftrightarrow> even k"
proof (cases "k = 0")
  case True then show ?thesis by simp
next
  case False
  then have "sgn k \<noteq> 0" by (simp add: sgn_if)
  then have "k smod 2 = 0 \<longleftrightarrow> \<bar>k\<bar> mod 2 = 0"
    by (simp add: signed_modulo_int_def)
  also have "\<dots> \<longleftrightarrow> even \<bar>k\<bar>" by (rule even_iff_mod_2_eq_zero [symmetric])
  also have "\<dots> \<longleftrightarrow> even k" by simp
  finally show ?thesis .
qed

lemma is_even_iff: "is_even x \<longleftrightarrow> even (sint x)"
  by (simp add: is_even_def smod_2_eq_0_iff)

lemma sint_scast_32_64: "sint (scast (x::int32) :: int64) = sint x"
  by (simp add: sint_up_scast is_up)

lemma sint32_bounds: "- (2^31) \<le> sint (x::int32)" "sint (x::int32) < 2^31"
  using sint_ge[of x] sint_lt[of x] by simp_all

lemma contrib_int_bounds: "- (2^31) \<le> contrib_int x" "contrib_int x < 2^31"
  using sint32_bounds[of x] by (auto simp: contrib_int_def)

lemma sint_contrib: "sint (contrib x) = contrib_int x"
  by (simp add: contrib_def contrib_int_def sint_scast_32_64)

lemma sint_add_64:
  "- (2^63) \<le> sint (a::int64) + sint b \<Longrightarrow> sint a + sint b < 2^63 \<Longrightarrow> sint (a + b) = sint a + sint b"
  by (simp add: sint_word_ariths signed_take_bit_int_eq_self)

lemma sum_list_contrib_int_bounds:
  "- (2^31 * int (length xs)) \<le> sum_list (map contrib_int xs) \<and> sum_list (map contrib_int xs) \<le> 2^31 * int (length xs)"
proof (induction xs)
  case Nil then show ?case by simp
next
  case (Cons x xs)
  then show ?case using contrib_int_bounds[of x] by (simp add: algebra_simps)
qed

lemma sint_sum_list_contrib:
  "length xs < 2^32 \<Longrightarrow> sint (sum_list (map contrib xs)) = sum_list (map contrib_int xs)"
proof (induction xs)
  case Nil then show ?case by simp
next
  case (Cons x xs)
  then have ih: "sint (sum_list (map contrib xs)) = sum_list (map contrib_int xs)" by simp
  from Cons.prems have len: "int (length xs) < 2^32 - 1" by simp
  have b: "- (2^31 * int (length xs)) \<le> sum_list (map contrib_int xs)" "sum_list (map contrib_int xs) \<le> 2^31 * int (length xs)"
    using sum_list_contrib_int_bounds[of xs] by simp_all
  have "sint (contrib x + sum_list (map contrib xs)) = sint (contrib x) + sint (sum_list (map contrib xs))"
    apply (rule sint_add_64)
    using b contrib_int_bounds[of x] len by (simp_all add: ih sint_contrib)
  then show ?case by (simp add: ih sint_contrib)
qed

subsection \<open>The sequential loop\<close>

lemma sle_antisym: "a \<le>s b \<Longrightarrow> b \<le>s a \<Longrightarrow> a = (b::int32)"
proof -
  assume "a \<le>s b" "b \<le>s a"
  then have "sint a = sint b" by (simp add: word_sle_eq)
  then show "a = b" by (rule signed_word_eqI)
qed

lemma sle_trans: "a \<le>s b \<Longrightarrow> b \<le>s c \<Longrightarrow> a \<le>s (c::int32)"
  by (simp add: word_sle_eq)

lemma sless_imp_sle: "a <s b \<Longrightarrow> a \<le>s (b::int32)"
  by (simp add: word_sle_eq word_sless_alt)

lemma not_sless_sle: "\<not> a <s b \<longleftrightarrow> b \<le>s (a::int32)"
  by (auto simp: word_sle_eq word_sless_alt)

lemma sle_refl: "a \<le>s (a::int32)"
  by (simp add: word_sle_eq)

lemma max_spec_unique: "max_spec xs m \<Longrightarrow> max_spec xs m' \<Longrightarrow> m = m'"
  unfolding max_spec_def by (metis sle_antisym)

lemma seq_body_frame:
  "arr (seq_body m x) = arr m" "mtx (seq_body m x) = mtx m"
  "atomic_sum (seq_body m x) = atomic_sum m" "atomic_max (seq_body m x) = atomic_max m"
  by (simp_all add: seq_body_def Let_def)

lemma seq_body_sum: "sum_even (seq_body m x) = sum_even m + contrib x"
  by (simp add: seq_body_def Let_def contrib_def)

lemma seq_body_max: "max_even (seq_body m x) = (if is_even x \<and> max_even m <s x then x else max_even m)"
  by (simp add: seq_body_def Let_def)

lemma foldl_seq_body_frame:
  "arr (foldl seq_body m ys) = arr m" "mtx (foldl seq_body m ys) = mtx m"
  "atomic_sum (foldl seq_body m ys) = atomic_sum m" "atomic_max (foldl seq_body m ys) = atomic_max m"
  by (induction ys arbitrary: m; simp add: seq_body_frame)+

lemma foldl_seq_body_sum: "sum_even (foldl seq_body m ys) = sum_even m + sum_list (map contrib ys)"
  by (induction ys arbitrary: m) (simp_all add: seq_body_sum add.assoc)

lemma foldl_seq_body_max:
  "max_even m \<le>s max_even (foldl seq_body m ys) \<and>
   (\<forall>y\<in>set ys. is_even y \<longrightarrow> y \<le>s max_even (foldl seq_body m ys)) \<and>
   (max_even (foldl seq_body m ys) = max_even m \<or>
    (max_even (foldl seq_body m ys) \<in> set ys \<and> is_even (max_even (foldl seq_body m ys))))"
proof (induction ys arbitrary: m)
  case Nil
  then show ?case by (simp add: sle_refl)
next
  case (Cons y ys)
  let ?m1 = "seq_body m y"
  let ?r = "max_even (foldl seq_body ?m1 ys)"
  from Cons.IH[of ?m1] have ih1: "max_even ?m1 \<le>s ?r"
    and ih2: "\<forall>z\<in>set ys. is_even z \<longrightarrow> z \<le>s ?r"
    and ih3: "?r = max_even ?m1 \<or> (?r \<in> set ys \<and> is_even ?r)" by simp_all
  have a: "max_even m \<le>s max_even ?m1"
    by (simp add: seq_body_max sless_imp_sle sle_refl)
  have b: "is_even y \<longrightarrow> y \<le>s max_even ?m1"
    by (simp add: seq_body_max not_sless_sle sle_refl)
  have c: "max_even ?m1 = max_even m \<or> (max_even ?m1 = y \<and> is_even y)"
    by (simp add: seq_body_max)
  have 1: "max_even m \<le>s ?r" using a ih1 by (rule sle_trans)
  have 2: "is_even y \<longrightarrow> y \<le>s ?r" using b ih1 by (blast intro: sle_trans)
  show ?case using 1 2 ih2 ih3 c by auto
qed

lemma sum_list_map_nth:
  "sum_list (map f xs) = (\<Sum>i = 0..<length xs. f (xs ! i))"
proof -
  have "sum_list (map f xs) = (\<Sum>i = 0..<length (map f xs). map f xs ! i)"
    by (rule sum_list_sum_nth)
  also have "\<dots> = (\<Sum>i = 0..<length xs. f (xs ! i))"
    by (rule sum.cong) simp_all
  finally show ?thesis .
qed

lemma sequential_frame:
  "arr (sequential m) = arr m" "mtx (sequential m) = mtx m"
  "atomic_sum (sequential m) = atomic_sum m" "atomic_max (sequential m) = atomic_max m"
  by (simp_all add: sequential_def foldl_seq_body_frame)

lemma sequential_sum: "sum_even (sequential m) = sum_list (map contrib (arr m))"
  by (simp add: sequential_def foldl_seq_body_sum)

lemma sequential_max: "max_spec (arr m) (max_even (sequential m))"
proof -
  let ?m0 = "m\<lparr>sum_even := 0, max_even := - 1\<rparr>"
  let ?r = "max_even (foldl seq_body ?m0 (arr m))"
  from foldl_seq_body_max[of ?m0 "arr m"]
  have 1: "- 1 \<le>s ?r" and 2: "\<forall>y\<in>set (arr m). is_even y \<longrightarrow> y \<le>s ?r"
    and 3: "?r = - 1 \<or> (?r \<in> set (arr m) \<and> is_even ?r)" by simp_all
  have "\<forall>i<length (arr m). is_even (arr m ! i) \<longrightarrow> arr m ! i \<le>s ?r"
    using 2 by simp
  moreover have "?r = - 1 \<or> (\<exists>j<length (arr m). is_even (arr m ! j) \<and> arr m ! j = ?r)"
    using 3 by (auto simp: in_set_conv_nth)
  ultimately show ?thesis using 1 by (simp add: max_spec_def sequential_def)
qed

subsection \<open>The lock-based section: one thread changes\<close>

lemma sum_list_map_update:
  fixes g :: "'a \<Rightarrow> 'b::ab_group_add"
  shows "t < length ws \<Longrightarrow> sum_list (map g (ws[t := w])) = sum_list (map g ws) - g (ws ! t) + g w"
proof (induction ws arbitrary: t)
  case Nil then show ?case by simp
next
  case (Cons a ws)
  then show ?case by (cases t) (simp_all add: algebra_simps)
qed

lemma seg_sum_Suc: "a \<le> b \<Longrightarrow> seg_sum xs a (Suc b) = seg_sum xs a b + contrib (xs ! b)"
  by (simp add: seg_sum_def)

lemma seg_sum_Suc_odd: "a \<le> b \<Longrightarrow> \<not> is_even (xs ! b) \<Longrightarrow> seg_sum xs a (Suc b) = seg_sum xs a b"
  by (simp add: seg_sum_def contrib_def)

lemma mutex_wf_update:
  assumes "mutex_wf xs W s" "t < W" "arr m' = xs" "mutex_worker_ok xs W t w"
  shows "mutex_wf xs W \<lparr>mm = m', mthreads = (mthreads s)[t := w]\<rparr>"
  using assms by (simp add: mutex_wf_def nth_list_update)

lemma mutex_excl_keep:
  assumes inv: "mutex_excl s" and t: "t < length (mthreads s)"
    and cs: "in_cs (m_pc w) = in_cs (m_pc (mthreads s ! t))" and lk: "mtx m' = mtx (mm s)"
  shows "mutex_excl \<lparr>mm = m', mthreads = (mthreads s)[t := w]\<rparr>"
proof -
  have eq: "\<And>u. u < length (mthreads s) \<Longrightarrow>
      in_cs (m_pc ((mthreads s)[t := w] ! u)) = in_cs (m_pc (mthreads s ! u))"
    using t cs by (simp add: nth_list_update)
  show ?thesis using inv unfolding mutex_excl_def
    by (simp add: eq lk cong: conj_cong)
qed

lemma mutex_excl_enter:
  assumes inv: "mutex_excl s" and t: "t < length (mthreads s)"
    and free: "\<not> mtx (mm s)" and cs: "in_cs (m_pc w)" and lk: "mtx m'"
  shows "mutex_excl \<lparr>mm = m', mthreads = (mthreads s)[t := w]\<rparr>"
proof -
  from inv free have none: "\<And>u. u < length (mthreads s) \<Longrightarrow> \<not> in_cs (m_pc (mthreads s ! u))"
    by (auto simp: mutex_excl_def)
  have iff: "\<And>u. u < length (mthreads s) \<Longrightarrow> in_cs (m_pc ((mthreads s)[t := w] ! u)) \<longleftrightarrow> u = t"
    using t cs none by (auto simp: nth_list_update)
  show ?thesis unfolding mutex_excl_def using iff t lk by auto
qed

lemma mutex_excl_leave:
  assumes inv: "mutex_excl s" and t: "t < length (mthreads s)"
    and was: "in_cs (m_pc (mthreads s ! t))" and cs: "\<not> in_cs (m_pc w)" and lk: "\<not> mtx m'"
  shows "mutex_excl \<lparr>mm = m', mthreads = (mthreads s)[t := w]\<rparr>"
proof -
  from inv t was have only: "\<And>u. u < length (mthreads s) \<Longrightarrow> in_cs (m_pc (mthreads s ! u)) \<Longrightarrow> u = t"
    by (auto simp: mutex_excl_def)
  have none: "\<And>u. u < length (mthreads s) \<Longrightarrow> \<not> in_cs (m_pc ((mthreads s)[t := w] ! u))"
    using t cs only by (auto simp: nth_list_update)
  show ?thesis unfolding mutex_excl_def using none lk by auto
qed

lemma mutex_excl_other:
  assumes "mutex_excl s" "t < length (mthreads s)" "in_cs (m_pc (mthreads s ! t))"
    "u < length (mthreads s)" "u \<noteq> t"
  shows "\<not> in_cs (m_pc (mthreads s ! u))"
  using assms by (auto simp: mutex_excl_def)

lemma mutex_excl_locked:
  assumes "mutex_excl s" "t < length (mthreads s)" "in_cs (m_pc (mthreads s ! t))"
  shows "mtx (mm s)"
  using assms by (auto simp: mutex_excl_def)

lemma mutex_sum_update:
  assumes inv: "mutex_sum_ok xs s" and t: "t < length (mthreads s)"
    and sum: "sum_even m' = sum_even (mm s)
        - seg_sum xs (m_start (mthreads s ! t)) (m_i (mthreads s ! t) + m_added (m_pc (mthreads s ! t)))
        + seg_sum xs (m_start w) (m_i w + m_added (m_pc w))"
    and tmp: "m_pc w = M_store_sum \<longrightarrow> m_tmp w = sum_even m'"
    and others: "sum_even m' \<noteq> sum_even (mm s) \<longrightarrow>
       (\<forall>u<length (mthreads s). u \<noteq> t \<longrightarrow> m_pc (mthreads s ! u) \<noteq> M_store_sum)"
  shows "mutex_sum_ok xs \<lparr>mm = m', mthreads = (mthreads s)[t := w]\<rparr>"
proof -
  have 1: "sum_even m' =
       sum_list (map (\<lambda>w. seg_sum xs (m_start w) (m_i w + m_added (m_pc w))) ((mthreads s)[t := w]))"
    using inv t unfolding sum
    by (simp add: sum_list_map_update mutex_sum_ok_def)
  have 2: "m_tmp ((mthreads s)[t := w] ! u) = sum_even m'"
    if "u < length (mthreads s)" "m_pc ((mthreads s)[t := w] ! u) = M_store_sum" for u
  proof (cases "u = t")
    case True
    then show ?thesis using that t tmp by simp
  next
    case False
    then have e: "(mthreads s)[t := w] ! u = mthreads s ! u" by simp
    with that have p: "m_pc (mthreads s ! u) = M_store_sum" by simp
    with others that False have "sum_even m' = sum_even (mm s)" by blast
    moreover from inv that(1) p have "m_tmp (mthreads s ! u) = sum_even (mm s)"
      by (simp add: mutex_sum_ok_def)
    ultimately show ?thesis by (simp add: e)
  qed
  show ?thesis unfolding mutex_sum_ok_def using 1 2 by simp
qed

lemma mutex_max_covered:
  assumes "mutex_max_ok xs s" "u < length (mthreads s)" "m_start (mthreads s ! u) \<le> i"
    "i < m_i (mthreads s ! u) + m_maxed (m_pc (mthreads s ! u))" "is_even (xs ! i)"
  shows "xs ! i \<le>s max_even (mm s)"
  using assms unfolding mutex_max_ok_def by blast

lemma mutex_max_update:
  assumes inv: "mutex_max_ok xs s" and t: "t < length (mthreads s)"
    and mono: "max_even (mm s) \<le>s max_even m'"
    and elem: "max_even m' = max_even (mm s) \<or>
       (\<exists>j<length xs. is_even (xs ! j) \<and> xs ! j = max_even m')"
    and cover: "\<And>j. m_start w \<le> j \<Longrightarrow> j < m_i w + m_maxed (m_pc w) \<Longrightarrow> is_even (xs ! j) \<Longrightarrow>
       xs ! j \<le>s max_even m'"
    and gt: "m_pc w = M_store_max \<longrightarrow> max_even m' <s m_x w"
    and others: "max_even m' \<noteq> max_even (mm s) \<longrightarrow>
       (\<forall>u<length (mthreads s). u \<noteq> t \<longrightarrow> m_pc (mthreads s ! u) \<noteq> M_store_max)"
  shows "mutex_max_ok xs \<lparr>mm = m', mthreads = (mthreads s)[t := w]\<rparr>"
proof -
  from inv have a1: "- 1 \<le>s max_even (mm s)"
    and a3: "max_even (mm s) = - 1 \<or> (\<exists>j<length xs. is_even (xs ! j) \<and> xs ! j = max_even (mm s))"
    and a4: "\<And>u. u < length (mthreads s) \<Longrightarrow> m_pc (mthreads s ! u) = M_store_max \<Longrightarrow>
        max_even (mm s) <s m_x (mthreads s ! u)"
    unfolding mutex_max_ok_def by blast+
  have 1: "- 1 \<le>s max_even m'" using a1 mono by (rule sle_trans)
  have 2: "xs ! i \<le>s max_even m'"
    if "u < length (mthreads s)" "m_start ((mthreads s)[t := w] ! u) \<le> i"
      "i < m_i ((mthreads s)[t := w] ! u) + m_maxed (m_pc ((mthreads s)[t := w] ! u))"
      "is_even (xs ! i)" for u i
  proof (cases "u = t")
    case True
    then show ?thesis using that t cover by simp
  next
    case False
    then have e: "(mthreads s)[t := w] ! u = mthreads s ! u" by simp
    from mutex_max_covered[OF inv that(1)] that e have "xs ! i \<le>s max_even (mm s)" by simp
    then show ?thesis using mono by (rule sle_trans)
  qed
  have 3: "max_even m' = - 1 \<or> (\<exists>j<length xs. is_even (xs ! j) \<and> xs ! j = max_even m')"
    using a3 elem by auto
  have 4: "max_even m' <s m_x ((mthreads s)[t := w] ! u)"
    if "u < length (mthreads s)" "m_pc ((mthreads s)[t := w] ! u) = M_store_max" for u
  proof (cases "u = t")
    case True
    then show ?thesis using that t gt by simp
  next
    case False
    then have e: "(mthreads s)[t := w] ! u = mthreads s ! u" by simp
    with that have p: "m_pc (mthreads s ! u) = M_store_max" by simp
    with others that False have "max_even m' = max_even (mm s)" by blast
    then show ?thesis using a4[OF that(1) p] by (simp add: e)
  qed
  show ?thesis unfolding mutex_max_ok_def using 1 2 3 4 by simp
qed

subsection \<open>The lock-based section: the steps keep the invariants\<close>

lemma mutex_step_cases [consumes 1, case_names idle even odd lock load_sum store_sum cmp_gt cmp_le store_max unlock]:
  assumes "t < length (mthreads s)"
  obtains
    (idle) "mutex_step t s = s"
      "m_pc (mthreads s ! t) = M_for \<and>
         \<not> (m_i (mthreads s ! t) < m_end (mthreads s ! t) \<and> m_i (mthreads s ! t) < length (arr (mm s)))
       \<or> m_pc (mthreads s ! t) = M_lock \<and> mtx (mm s)"
  | (even) "m_pc (mthreads s ! t) = M_for" "m_i (mthreads s ! t) < m_end (mthreads s ! t)"
      "m_i (mthreads s ! t) < length (arr (mm s))"
      "is_even (arr (mm s) ! m_i (mthreads s ! t))"
      "mutex_step t s = \<lparr>mm = mm s, mthreads = (mthreads s)[t := (mthreads s ! t)
         \<lparr>m_x := arr (mm s) ! m_i (mthreads s ! t), m_pc := M_lock\<rparr>]\<rparr>"
  | (odd) "m_pc (mthreads s ! t) = M_for" "m_i (mthreads s ! t) < m_end (mthreads s ! t)"
      "m_i (mthreads s ! t) < length (arr (mm s))"
      "\<not> is_even (arr (mm s) ! m_i (mthreads s ! t))"
      "mutex_step t s = \<lparr>mm = mm s, mthreads = (mthreads s)[t := (mthreads s ! t)
         \<lparr>m_x := arr (mm s) ! m_i (mthreads s ! t), m_i := m_i (mthreads s ! t) + 1\<rparr>]\<rparr>"
  | (lock) "m_pc (mthreads s ! t) = M_lock" "\<not> mtx (mm s)"
      "mutex_step t s = \<lparr>mm = (mm s)\<lparr>mtx := True\<rparr>,
         mthreads = (mthreads s)[t := (mthreads s ! t)\<lparr>m_pc := M_load_sum\<rparr>]\<rparr>"
  | (load_sum) "m_pc (mthreads s ! t) = M_load_sum"
      "mutex_step t s = \<lparr>mm = mm s, mthreads = (mthreads s)[t := (mthreads s ! t)
         \<lparr>m_tmp := sum_even (mm s), m_pc := M_store_sum\<rparr>]\<rparr>"
  | (store_sum) "m_pc (mthreads s ! t) = M_store_sum"
      "mutex_step t s = \<lparr>mm = (mm s)\<lparr>sum_even := m_tmp (mthreads s ! t) + scast (m_x (mthreads s ! t))\<rparr>,
         mthreads = (mthreads s)[t := (mthreads s ! t)\<lparr>m_pc := M_cmp_max\<rparr>]\<rparr>"
  | (cmp_gt) "m_pc (mthreads s ! t) = M_cmp_max" "max_even (mm s) <s m_x (mthreads s ! t)"
      "mutex_step t s = \<lparr>mm = mm s, mthreads = (mthreads s)[t := (mthreads s ! t)\<lparr>m_pc := M_store_max\<rparr>]\<rparr>"
  | (cmp_le) "m_pc (mthreads s ! t) = M_cmp_max" "\<not> max_even (mm s) <s m_x (mthreads s ! t)"
      "mutex_step t s = \<lparr>mm = mm s, mthreads = (mthreads s)[t := (mthreads s ! t)\<lparr>m_pc := M_unlock\<rparr>]\<rparr>"
  | (store_max) "m_pc (mthreads s ! t) = M_store_max"
      "mutex_step t s = \<lparr>mm = (mm s)\<lparr>max_even := m_x (mthreads s ! t)\<rparr>,
         mthreads = (mthreads s)[t := (mthreads s ! t)\<lparr>m_pc := M_unlock\<rparr>]\<rparr>"
  | (unlock) "m_pc (mthreads s ! t) = M_unlock"
      "mutex_step t s = \<lparr>mm = (mm s)\<lparr>mtx := False\<rparr>,
         mthreads = (mthreads s)[t := (mthreads s ! t)
           \<lparr>m_i := m_i (mthreads s ! t) + 1, m_pc := M_for\<rparr>]\<rparr>"
proof (cases "m_pc (mthreads s ! t)")
  case M_for
  show ?thesis
  proof (cases "m_i (mthreads s ! t) < m_end (mthreads s ! t) \<and> m_i (mthreads s ! t) < length (arr (mm s))")
    case False
    then have "mutex_step t s = s" using M_for assms by (auto simp: mutex_step_def Let_def)
    then show ?thesis using False M_for by (intro idle) simp_all
  next
    case True
    show ?thesis
    proof (cases "is_even (arr (mm s) ! m_i (mthreads s ! t))")
      case e: True
      show ?thesis
        by (rule even) (use M_for True e assms in \<open>simp_all add: mutex_step_def Let_def\<close>)
    next
      case e: False
      show ?thesis
        by (rule odd) (use M_for True e assms in \<open>simp_all add: mutex_step_def Let_def\<close>)
    qed
  qed
next
  case M_lock
  show ?thesis
  proof (cases "mtx (mm s)")
    case True
    then have "mutex_step t s = s" using M_lock assms by (simp add: mutex_step_def Let_def)
    then show ?thesis using True M_lock by (intro idle) simp_all
  next
    case False
    show ?thesis
      by (rule lock) (use M_lock False assms in \<open>simp_all add: mutex_step_def Let_def\<close>)
  qed
next
  case M_load_sum
  show ?thesis
    by (rule load_sum) (use M_load_sum assms in \<open>simp_all add: mutex_step_def Let_def\<close>)
next
  case M_store_sum
  show ?thesis
    by (rule store_sum) (use M_store_sum assms in \<open>simp_all add: mutex_step_def Let_def\<close>)
next
  case M_cmp_max
  show ?thesis
  proof (cases "max_even (mm s) <s m_x (mthreads s ! t)")
    case True
    show ?thesis
      by (rule cmp_gt) (use M_cmp_max True assms in \<open>simp_all add: mutex_step_def Let_def\<close>)
  next
    case False
    show ?thesis
      by (rule cmp_le) (use M_cmp_max False assms in \<open>simp_all add: mutex_step_def Let_def\<close>)
  qed
next
  case M_store_max
  show ?thesis
    by (rule store_max) (use M_store_max assms in \<open>simp_all add: mutex_step_def Let_def\<close>)
next
  case M_unlock
  show ?thesis
    by (rule unlock) (use M_unlock assms in \<open>simp_all add: mutex_step_def Let_def\<close>)
qed

lemma mutex_step_beyond: "\<not> t < length (mthreads s) \<Longrightarrow> mutex_step t s = s"
  by (simp add: mutex_step_def)

lemma mutex_wf_worker: "mutex_wf xs W s \<Longrightarrow> t < length (mthreads s) \<Longrightarrow> mutex_worker_ok xs W t (mthreads s ! t)"
  by (simp add: mutex_wf_def)

lemma mutex_step_wf:
  assumes "mutex_wf xs W s"
  shows "mutex_wf xs W (mutex_step t s)"
proof (cases "t < length (mthreads s)")
  case False
  then show ?thesis using assms by (simp add: mutex_step_beyond)
next
  case True
  then have tW: "t < W" using assms by (simp add: mutex_wf_def)
  have a: "arr (mm s) = xs" using assms by (simp add: mutex_wf_def)
  note ok = mutex_wf_worker[OF assms True, unfolded mutex_worker_ok_def]
  from True show ?thesis
  proof (cases rule: mutex_step_cases)
    case idle
    then show ?thesis using assms by simp
  next
    case even
    show ?thesis unfolding even(5)
      by (rule mutex_wf_update[OF assms tW]) (use ok a even in \<open>auto simp: mutex_worker_ok_def\<close>)
  next
    case odd
    show ?thesis unfolding odd(5)
      by (rule mutex_wf_update[OF assms tW]) (use ok a odd in \<open>auto simp: mutex_worker_ok_def\<close>)
  next
    case lock
    show ?thesis unfolding lock(3)
      by (rule mutex_wf_update[OF assms tW]) (use ok a lock in \<open>auto simp: mutex_worker_ok_def\<close>)
  next
    case load_sum
    show ?thesis unfolding load_sum(2)
      by (rule mutex_wf_update[OF assms tW]) (use ok a load_sum in \<open>auto simp: mutex_worker_ok_def\<close>)
  next
    case store_sum
    show ?thesis unfolding store_sum(2)
      by (rule mutex_wf_update[OF assms tW]) (use ok a store_sum in \<open>auto simp: mutex_worker_ok_def\<close>)
  next
    case cmp_gt
    show ?thesis unfolding cmp_gt(3)
      by (rule mutex_wf_update[OF assms tW]) (use ok a cmp_gt in \<open>auto simp: mutex_worker_ok_def\<close>)
  next
    case cmp_le
    show ?thesis unfolding cmp_le(3)
      by (rule mutex_wf_update[OF assms tW]) (use ok a cmp_le in \<open>auto simp: mutex_worker_ok_def\<close>)
  next
    case store_max
    show ?thesis unfolding store_max(2)
      by (rule mutex_wf_update[OF assms tW]) (use ok a store_max in \<open>auto simp: mutex_worker_ok_def\<close>)
  next
    case unlock
    show ?thesis unfolding unlock(2)
      by (rule mutex_wf_update[OF assms tW]) (use ok a unlock in \<open>auto simp: mutex_worker_ok_def\<close>)
  qed
qed

lemma mutex_step_excl:
  assumes "mutex_excl s"
  shows "mutex_excl (mutex_step t s)"
proof (cases "t < length (mthreads s)")
  case False
  then show ?thesis using assms by (simp add: mutex_step_beyond)
next
  case True
  from True show ?thesis
  proof (cases rule: mutex_step_cases)
    case idle
    then show ?thesis using assms by simp
  next
    case even
    show ?thesis unfolding even(5)
      by (rule mutex_excl_keep[OF assms True]) (use even in simp_all)
  next
    case odd
    show ?thesis unfolding odd(5)
      by (rule mutex_excl_keep[OF assms True]) (use odd in simp_all)
  next
    case lock
    show ?thesis unfolding lock(3)
      by (rule mutex_excl_enter[OF assms True]) (use lock in simp_all)
  next
    case load_sum
    show ?thesis unfolding load_sum(2)
      by (rule mutex_excl_keep[OF assms True]) (use load_sum in simp_all)
  next
    case store_sum
    show ?thesis unfolding store_sum(2)
      by (rule mutex_excl_keep[OF assms True]) (use store_sum in simp_all)
  next
    case cmp_gt
    show ?thesis unfolding cmp_gt(3)
      by (rule mutex_excl_keep[OF assms True]) (use cmp_gt in simp_all)
  next
    case cmp_le
    show ?thesis unfolding cmp_le(3)
      by (rule mutex_excl_keep[OF assms True]) (use cmp_le in simp_all)
  next
    case store_max
    show ?thesis unfolding store_max(2)
      by (rule mutex_excl_keep[OF assms True]) (use store_max in simp_all)
  next
    case unlock
    show ?thesis unfolding unlock(2)
      by (rule mutex_excl_leave[OF assms True]) (use unlock in simp_all)
  qed
qed

lemma mutex_sum_tmp:
  "mutex_sum_ok xs s \<Longrightarrow> t < length (mthreads s) \<Longrightarrow> m_pc (mthreads s ! t) = M_store_sum \<Longrightarrow>
   m_tmp (mthreads s ! t) = sum_even (mm s)"
  by (simp add: mutex_sum_ok_def)

lemma mutex_step_sum:
  assumes wf: "mutex_wf xs W s" and excl: "mutex_excl s" and inv: "mutex_sum_ok xs s"
  shows "mutex_sum_ok xs (mutex_step t s)"
proof (cases "t < length (mthreads s)")
  case False
  then show ?thesis using inv by (simp add: mutex_step_beyond)
next
  case True
  have a: "arr (mm s) = xs" using wf by (simp add: mutex_wf_def)
  note ok = mutex_wf_worker[OF wf True, unfolded mutex_worker_ok_def]
  from True show ?thesis
  proof (cases rule: mutex_step_cases)
    case idle
    then show ?thesis using inv by simp
  next
    case even
    show ?thesis unfolding even(5)
      by (rule mutex_sum_update[OF inv True]) (use even in simp_all)
  next
    case odd
    have "seg_sum xs (m_start (mthreads s ! t)) (Suc (m_i (mthreads s ! t)))
        = seg_sum xs (m_start (mthreads s ! t)) (m_i (mthreads s ! t))"
      using ok odd a by (intro seg_sum_Suc_odd) simp_all
    then show ?thesis unfolding odd(5)
      by (intro mutex_sum_update[OF inv True]) (use odd in simp_all)
  next
    case lock
    show ?thesis unfolding lock(3)
      by (rule mutex_sum_update[OF inv True]) (use lock in simp_all)
  next
    case load_sum
    show ?thesis unfolding load_sum(2)
      by (rule mutex_sum_update[OF inv True]) (use load_sum in simp_all)
  next
    case store_sum
    have tmp: "m_tmp (mthreads s ! t) = sum_even (mm s)"
      using inv True store_sum(1) by (rule mutex_sum_tmp)
    have x: "scast (m_x (mthreads s ! t)) = contrib (xs ! m_i (mthreads s ! t))"
      using ok store_sum(1) by (auto simp: contrib_def)
    have seg: "seg_sum xs (m_start (mthreads s ! t)) (Suc (m_i (mthreads s ! t)))
        = seg_sum xs (m_start (mthreads s ! t)) (m_i (mthreads s ! t)) + contrib (xs ! m_i (mthreads s ! t))"
      using ok by (intro seg_sum_Suc) simp
    have oth: "\<forall>u<length (mthreads s). u \<noteq> t \<longrightarrow> m_pc (mthreads s ! u) \<noteq> M_store_sum"
    proof (intro allI impI)
      fix u assume "u < length (mthreads s)" "u \<noteq> t"
      then have "\<not> in_cs (m_pc (mthreads s ! u))"
        using mutex_excl_other[OF excl True _ _ _] store_sum(1) by simp
      then show "m_pc (mthreads s ! u) \<noteq> M_store_sum" by auto
    qed
    show ?thesis unfolding store_sum(2)
      by (rule mutex_sum_update[OF inv True]) (use store_sum(1) tmp x seg oth in simp_all)
  next
    case cmp_gt
    show ?thesis unfolding cmp_gt(3)
      by (rule mutex_sum_update[OF inv True]) (use cmp_gt in simp_all)
  next
    case cmp_le
    show ?thesis unfolding cmp_le(3)
      by (rule mutex_sum_update[OF inv True]) (use cmp_le in simp_all)
  next
    case store_max
    show ?thesis unfolding store_max(2)
      by (rule mutex_sum_update[OF inv True]) (use store_max in simp_all)
  next
    case unlock
    show ?thesis unfolding unlock(2)
      by (rule mutex_sum_update[OF inv True]) (use unlock in simp_all)
  qed
qed

lemma mutex_max_gt:
  "mutex_max_ok xs s \<Longrightarrow> t < length (mthreads s) \<Longrightarrow> m_pc (mthreads s ! t) = M_store_max \<Longrightarrow>
   max_even (mm s) <s m_x (mthreads s ! t)"
  by (simp add: mutex_max_ok_def)

lemma mutex_step_max:
  assumes wf: "mutex_wf xs W s" and excl: "mutex_excl s" and inv: "mutex_max_ok xs s"
  shows "mutex_max_ok xs (mutex_step t s)"
proof (cases "t < length (mthreads s)")
  case False
  then show ?thesis using inv by (simp add: mutex_step_beyond)
next
  case True
  have a: "arr (mm s) = xs" using wf by (simp add: mutex_wf_def)
  have tW: "t < W" using wf True by (simp add: mutex_wf_def)
  note ok = mutex_wf_worker[OF wf True, unfolded mutex_worker_ok_def]
  note old = mutex_max_covered[OF inv True]
  have in_range: "m_i (mthreads s ! t) < length xs" if "m_pc (mthreads s ! t) \<noteq> M_for"
  proof -
    have "m_i (mthreads s ! t) < end_idx (length xs) W t" using ok that by simp
    also have "\<dots> \<le> length xs" using tW by (rule end_le_n)
    finally show ?thesis .
  qed
  from True show ?thesis
  proof (cases rule: mutex_step_cases)
    case idle
    then show ?thesis using inv by simp
  next
    case even
    show ?thesis unfolding even(5)
      by (rule mutex_max_update[OF inv True]) (use even old in \<open>simp_all add: sle_refl\<close>)
  next
    case odd
    have c: "xs ! j \<le>s max_even (mm s)"
      if "m_start (mthreads s ! t) \<le> j" "j < Suc (m_i (mthreads s ! t))" "is_even (xs ! j)" for j
    proof (cases "j = m_i (mthreads s ! t)")
      case True
      then show ?thesis using that odd a by simp
    next
      case False
      then show ?thesis using that odd old[of j] by simp
    qed
    show ?thesis unfolding odd(5)
      by (rule mutex_max_update[OF inv True]) (use odd c in \<open>simp_all add: sle_refl\<close>)
  next
    case lock
    show ?thesis unfolding lock(3)
      by (rule mutex_max_update[OF inv True]) (use lock old in \<open>simp_all add: sle_refl\<close>)
  next
    case load_sum
    show ?thesis unfolding load_sum(2)
      by (rule mutex_max_update[OF inv True]) (use load_sum old in \<open>simp_all add: sle_refl\<close>)
  next
    case store_sum
    show ?thesis unfolding store_sum(2)
      by (rule mutex_max_update[OF inv True]) (use store_sum old in \<open>simp_all add: sle_refl\<close>)
  next
    case cmp_gt
    show ?thesis unfolding cmp_gt(3)
      by (rule mutex_max_update[OF inv True]) (use cmp_gt old in \<open>simp_all add: sle_refl\<close>)
  next
    case cmp_le
    have xi: "m_x (mthreads s ! t) = xs ! m_i (mthreads s ! t)" using ok cmp_le(1) by simp
    have c: "xs ! j \<le>s max_even (mm s)"
      if "m_start (mthreads s ! t) \<le> j" "j < Suc (m_i (mthreads s ! t))" "is_even (xs ! j)" for j
    proof (cases "j = m_i (mthreads s ! t)")
      case True
      then show ?thesis using cmp_le(2) xi by (simp add: not_sless_sle)
    next
      case False
      then show ?thesis using that cmp_le(1) old[of j] by simp
    qed
    show ?thesis unfolding cmp_le(3)
      by (rule mutex_max_update[OF inv True]) (use cmp_le c in \<open>simp_all add: sle_refl\<close>)
  next
    case store_max
    have xi: "m_x (mthreads s ! t) = xs ! m_i (mthreads s ! t)"
      and ev: "is_even (m_x (mthreads s ! t))" using ok store_max(1) by auto
    have gt: "max_even (mm s) <s m_x (mthreads s ! t)"
      using inv True store_max(1) by (rule mutex_max_gt)
    have el: "\<exists>j<length xs. is_even (xs ! j) \<and> xs ! j = m_x (mthreads s ! t)"
      using in_range xi ev store_max(1) by (intro exI[of _ "m_i (mthreads s ! t)"]) simp
    have c: "xs ! j \<le>s m_x (mthreads s ! t)"
      if "m_start (mthreads s ! t) \<le> j" "j < Suc (m_i (mthreads s ! t))" "is_even (xs ! j)" for j
    proof (cases "j = m_i (mthreads s ! t)")
      case True
      then show ?thesis using xi by (simp add: sle_refl)
    next
      case False
      then have "xs ! j \<le>s max_even (mm s)" using that store_max(1) old[of j] by simp
      then show ?thesis using sless_imp_sle[OF gt] by (rule sle_trans)
    qed
    have oth: "\<forall>u<length (mthreads s). u \<noteq> t \<longrightarrow> m_pc (mthreads s ! u) \<noteq> M_store_max"
    proof (intro allI impI)
      fix u assume "u < length (mthreads s)" "u \<noteq> t"
      then have "\<not> in_cs (m_pc (mthreads s ! u))"
        using mutex_excl_other[OF excl True _ _ _] store_max(1) by simp
      then show "m_pc (mthreads s ! u) \<noteq> M_store_max" by auto
    qed
    show ?thesis unfolding store_max(2)
      by (rule mutex_max_update[OF inv True])
        (use store_max(1) c el oth sless_imp_sle[OF gt] in simp_all)
  next
    case unlock
    show ?thesis unfolding unlock(2)
      by (rule mutex_max_update[OF inv True]) (use unlock old in \<open>simp_all add: sle_refl\<close>)
  qed
qed

subsection \<open>The lock-based section: the memory after the joins\<close>

lemma mutex_step_inv: "mutex_inv xs W s \<Longrightarrow> mutex_inv xs W (mutex_step t s)"
  unfolding mutex_inv_def
  by (blast intro: mutex_step_wf mutex_step_excl mutex_step_sum mutex_step_max)

lemma mutex_run_Nil: "mutex_run [] s = s"
  by (simp add: mutex_run_def)

lemma mutex_run_Cons: "mutex_run (t # sched) s = mutex_run sched (mutex_step t s)"
  by (simp add: mutex_run_def)

lemma mutex_run_append: "mutex_run (p @ q) s = mutex_run q (mutex_run p s)"
  by (simp add: mutex_run_def)

lemma mutex_run_inv: "mutex_inv xs W s \<Longrightarrow> mutex_inv xs W (mutex_run sched s)"
  by (induction sched arbitrary: s) (simp_all add: mutex_run_Nil mutex_run_Cons mutex_step_inv)

lemma seg_sum_empty: "seg_sum xs a a = 0"
  by (simp add: seg_sum_def)

lemma seg_sum_concat: "a \<le> b \<Longrightarrow> b \<le> c \<Longrightarrow> seg_sum xs a b + seg_sum xs b c = seg_sum xs a c"
  unfolding seg_sum_def by (rule sum.atLeastLessThan_concat)

lemma seg_sum_chunks_prefix:
  "Suc k \<le> W \<Longrightarrow>
   (\<Sum>t = 0..<Suc k. seg_sum xs (start_idx n W t) (end_idx n W t)) = seg_sum xs 0 (end_idx n W k)"
proof (induction k)
  case 0
  then show ?case by (simp add: start_0)
next
  case (Suc k)
  then have ih: "(\<Sum>t = 0..<Suc k. seg_sum xs (start_idx n W t) (end_idx n W t))
      = seg_sum xs 0 (end_idx n W k)" by simp
  from Suc.prems have e: "end_idx n W k = start_idx n W (Suc k)" by (simp add: end_eq_start_Suc)
  have le: "start_idx n W (Suc k) \<le> end_idx n W (Suc k)" using Suc.prems by (simp add: start_le_end)
  have "(\<Sum>t = 0..<Suc (Suc k). seg_sum xs (start_idx n W t) (end_idx n W t))
      = seg_sum xs 0 (start_idx n W (Suc k)) + seg_sum xs (start_idx n W (Suc k)) (end_idx n W (Suc k))"
    using ih e by simp
  also have "\<dots> = seg_sum xs 0 (end_idx n W (Suc k))"
    using le by (intro seg_sum_concat) simp_all
  finally show ?case .
qed

lemma seg_sum_chunks:
  assumes "0 < W"
  shows "(\<Sum>t = 0..<W. seg_sum xs (start_idx n W t) (end_idx n W t)) = seg_sum xs 0 n"
proof -
  from assms obtain k where k: "W = Suc k" by (cases W) auto
  have "end_idx n W k = n" using k by (simp add: end_idx_def)
  then show ?thesis using seg_sum_chunks_prefix[of k W xs n] k by simp
qed

lemma seg_sum_all: "seg_sum xs 0 (length xs) = sum_list (map contrib xs)"
  by (simp add: seg_sum_def sum_list_map_nth)

lemma mutex_init_inv: "mutex_inv (arr m) W (mutex_init W m)"
proof -
  have wf: "mutex_wf (arr m) W (mutex_init W m)"
    by (simp add: mutex_wf_def mutex_init_def mutex_worker_ok_def mutex_spawn_def start_le_end)
  have excl: "mutex_excl (mutex_init W m)"
    by (simp add: mutex_excl_def mutex_init_def mutex_spawn_def)
  have sum: "mutex_sum_ok (arr m) (mutex_init W m)"
    by (simp add: mutex_sum_ok_def mutex_init_def mutex_spawn_def o_def seg_sum_empty)
  have mx: "mutex_max_ok (arr m) (mutex_init W m)"
    by (simp add: mutex_max_ok_def mutex_init_def mutex_spawn_def sle_refl)
  show ?thesis unfolding mutex_inv_def using wf excl sum mx by simp
qed

lemma mutex_joined_nth:
  "mutex_joined s \<Longrightarrow> t < length (mthreads s) \<Longrightarrow>
   m_pc (mthreads s ! t) = M_for \<and> \<not> m_i (mthreads s ! t) < m_end (mthreads s ! t)"
  by (simp add: mutex_joined_def list_all_length)

lemma mutex_joined_sum:
  assumes inv: "mutex_inv xs W s" and j: "mutex_joined s" and W: "0 < W"
  shows "sum_even (mm s) = sum_list (map contrib xs)"
proof -
  from inv have wf: "mutex_wf xs W s" and sm: "mutex_sum_ok xs s" by (simp_all add: mutex_inv_def)
  have len: "length (mthreads s) = W" using wf by (simp add: mutex_wf_def)
  have g: "seg_sum xs (m_start (mthreads s ! t)) (m_i (mthreads s ! t) + m_added (m_pc (mthreads s ! t)))
      = seg_sum xs (start_idx (length xs) W t) (end_idx (length xs) W t)" if "t < W" for t
  proof -
    from that len have t: "t < length (mthreads s)" by simp
    note ok = mutex_wf_worker[OF wf t, unfolded mutex_worker_ok_def]
    from mutex_joined_nth[OF j t] ok show ?thesis by auto
  qed
  have "sum_even (mm s) = (\<Sum>t = 0..<W.
      seg_sum xs (m_start (mthreads s ! t)) (m_i (mthreads s ! t) + m_added (m_pc (mthreads s ! t))))"
    using sm by (simp add: mutex_sum_ok_def sum_list_map_nth len)
  also have "\<dots> = (\<Sum>t = 0..<W. seg_sum xs (start_idx (length xs) W t) (end_idx (length xs) W t))"
    by (rule sum.cong) (simp_all add: g)
  also have "\<dots> = seg_sum xs 0 (length xs)" using W by (rule seg_sum_chunks)
  finally show ?thesis by (simp add: seg_sum_all)
qed

lemma mutex_joined_max:
  assumes inv: "mutex_inv xs W s" and j: "mutex_joined s" and W: "0 < W"
  shows "max_spec xs (max_even (mm s))"
proof -
  from inv have wf: "mutex_wf xs W s" and mx: "mutex_max_ok xs s" by (simp_all add: mutex_inv_def)
  have len: "length (mthreads s) = W" using wf by (simp add: mutex_wf_def)
  have cover: "xs ! i \<le>s max_even (mm s)" if "i < length xs" "is_even (xs ! i)" for i
  proof -
    from that(1) have "i \<in> (\<Union>t<W. {start_idx (length xs) W t ..< end_idx (length xs) W t})"
      using chunks_cover[OF W, of "length xs"] by simp
    then obtain t where tW: "t < W" and lo: "start_idx (length xs) W t \<le> i"
      and hi: "i < end_idx (length xs) W t" by auto
    from tW len have t: "t < length (mthreads s)" by simp
    note ok = mutex_wf_worker[OF wf t, unfolded mutex_worker_ok_def]
    from mutex_joined_nth[OF j t] ok have "m_i (mthreads s ! t) = end_idx (length xs) W t"
      "m_start (mthreads s ! t) = start_idx (length xs) W t" by auto
    then show ?thesis using mutex_max_covered[OF mx t, of i] lo hi that(2) by simp
  qed
  from mx have "- 1 \<le>s max_even (mm s)"
    "max_even (mm s) = - 1 \<or> (\<exists>j<length xs. is_even (xs ! j) \<and> xs ! j = max_even (mm s))"
    by (simp_all add: mutex_max_ok_def)
  then show ?thesis using cover by (simp add: max_spec_def)
qed

lemma mutex_step_frame:
  "arr (mm (mutex_step t s)) = arr (mm s)"
  "atomic_sum (mm (mutex_step t s)) = atomic_sum (mm s)"
  "atomic_max (mm (mutex_step t s)) = atomic_max (mm s)"
proof -
  have "arr (mm (mutex_step t s)) = arr (mm s) \<and>
    atomic_sum (mm (mutex_step t s)) = atomic_sum (mm s) \<and>
    atomic_max (mm (mutex_step t s)) = atomic_max (mm s)"
  proof (cases "t < length (mthreads s)")
    case False
    then show ?thesis by (simp add: mutex_step_beyond)
  next
    case True
    then show ?thesis by (cases rule: mutex_step_cases) simp_all
  qed
  then show "arr (mm (mutex_step t s)) = arr (mm s)"
    "atomic_sum (mm (mutex_step t s)) = atomic_sum (mm s)"
    "atomic_max (mm (mutex_step t s)) = atomic_max (mm s)" by simp_all
qed

lemma mutex_run_frame:
  "arr (mm (mutex_run sched s)) = arr (mm s)"
  "atomic_sum (mm (mutex_run sched s)) = atomic_sum (mm s)"
  "atomic_max (mm (mutex_run sched s)) = atomic_max (mm s)"
  by (induction sched arbitrary: s; simp add: mutex_run_Nil mutex_run_Cons mutex_step_frame)+

lemma lock_based_eq_sequential:
  assumes "lock_based W sched m = Some m'" "0 < W"
  shows "sum_even m' = sum_even (sequential m)" "max_even m' = max_even (sequential m)"
    "arr m' = arr m" "atomic_sum m' = atomic_sum m" "atomic_max m' = atomic_max m"
proof -
  let ?s = "mutex_run sched (mutex_init W m)"
  from assms(1) have j: "mutex_joined ?s" and m': "m' = mm ?s"
    by (simp_all add: lock_based_def Let_def split: if_splits)
  have inv: "mutex_inv (arr m) W ?s" by (intro mutex_run_inv mutex_init_inv)
  show "sum_even m' = sum_even (sequential m)"
    using mutex_joined_sum[OF inv j assms(2)] by (simp add: m' sequential_sum)
  show "max_even m' = max_even (sequential m)"
    using mutex_joined_max[OF inv j assms(2)] sequential_max[of m] unfolding m'
    by (rule max_spec_unique)
  show "arr m' = arr m" "atomic_sum m' = atomic_sum m" "atomic_max m' = atomic_max m"
    by (simp_all add: m' mutex_run_frame mutex_init_def)
qed

subsection \<open>The lock-based section: the threads can always finish\<close>

lemma sum_list_map_update_less:
  fixes g :: "'a \<Rightarrow> nat"
  shows "t < length ws \<Longrightarrow> g w < g (ws ! t) \<Longrightarrow> sum_list (map g (ws[t := w])) < sum_list (map g ws)"
proof (induction ws arbitrary: t)
  case Nil then show ?case by simp
next
  case (Cons a ws)
  then show ?case by (cases t) simp_all
qed

lemma mutex_measure_update:
  "t < length (mthreads s) \<Longrightarrow> m_left w < m_left (mthreads s ! t) \<Longrightarrow>
   mutex_measure \<lparr>mm = m', mthreads = (mthreads s)[t := w]\<rparr> < mutex_measure s"
  by (simp add: mutex_measure_def sum_list_map_update_less)

lemma mutex_step_decreases:
  assumes wf: "mutex_wf xs W s" and t: "t < length (mthreads s)"
    and moves: "mutex_step t s \<noteq> s"
  shows "mutex_measure (mutex_step t s) < mutex_measure s"
proof -
  note ok = mutex_wf_worker[OF wf t, unfolded mutex_worker_ok_def]
  from t show ?thesis
  proof (cases rule: mutex_step_cases)
    case idle
    then show ?thesis using moves by simp
  next
    case even
    show ?thesis unfolding even(5)
      by (rule mutex_measure_update[OF t]) (use even in \<open>simp add: m_left_def\<close>)
  next
    case odd
    show ?thesis unfolding odd(5)
      by (rule mutex_measure_update[OF t]) (use odd in \<open>simp add: m_left_def\<close>)
  next
    case lock
    show ?thesis unfolding lock(3)
      by (rule mutex_measure_update[OF t]) (use lock ok in \<open>auto simp: m_left_def\<close>)
  next
    case load_sum
    show ?thesis unfolding load_sum(2)
      by (rule mutex_measure_update[OF t]) (use load_sum ok in \<open>auto simp: m_left_def\<close>)
  next
    case store_sum
    show ?thesis unfolding store_sum(2)
      by (rule mutex_measure_update[OF t]) (use store_sum ok in \<open>auto simp: m_left_def\<close>)
  next
    case cmp_gt
    show ?thesis unfolding cmp_gt(3)
      by (rule mutex_measure_update[OF t]) (use cmp_gt ok in \<open>auto simp: m_left_def\<close>)
  next
    case cmp_le
    show ?thesis unfolding cmp_le(3)
      by (rule mutex_measure_update[OF t]) (use cmp_le ok in \<open>auto simp: m_left_def\<close>)
  next
    case store_max
    show ?thesis unfolding store_max(2)
      by (rule mutex_measure_update[OF t]) (use store_max ok in \<open>auto simp: m_left_def\<close>)
  next
    case unlock
    show ?thesis unfolding unlock(2)
      by (rule mutex_measure_update[OF t]) (use unlock ok in \<open>auto simp: m_left_def\<close>)
  qed
qed

lemma mutex_can_move:
  assumes wf: "mutex_wf xs W s" and excl: "mutex_excl s" and nj: "\<not> mutex_joined s"
  shows "\<exists>t<length (mthreads s). mutex_step t s \<noteq> s"
proof (cases "mtx (mm s)")
  case True
  with excl obtain t where t: "t < length (mthreads s)" and cs: "in_cs (m_pc (mthreads s ! t))"
    by (auto simp: mutex_excl_def)
  have "mutex_step t s \<noteq> s"
  proof
    assume same: "mutex_step t s = s"
    from t show False
    proof (cases rule: mutex_step_cases)
      case idle
      then show ?thesis using cs by auto
    next
      case even then show ?thesis using cs by simp
    next
      case odd then show ?thesis using cs by simp
    next
      case lock then show ?thesis using cs by simp
    next
      case load_sum
      from arg_cong[OF load_sum(2)[unfolded same], of "\<lambda>s. m_pc (mthreads s ! t)"] t load_sum(1)
      show ?thesis by simp
    next
      case store_sum
      from arg_cong[OF store_sum(2)[unfolded same], of "\<lambda>s. m_pc (mthreads s ! t)"] t store_sum(1)
      show ?thesis by simp
    next
      case cmp_gt
      from arg_cong[OF cmp_gt(3)[unfolded same], of "\<lambda>s. m_pc (mthreads s ! t)"] t cmp_gt(1)
      show ?thesis by simp
    next
      case cmp_le
      from arg_cong[OF cmp_le(3)[unfolded same], of "\<lambda>s. m_pc (mthreads s ! t)"] t cmp_le(1)
      show ?thesis by simp
    next
      case store_max
      from arg_cong[OF store_max(2)[unfolded same], of "\<lambda>s. m_pc (mthreads s ! t)"] t store_max(1)
      show ?thesis by simp
    next
      case unlock
      from arg_cong[OF unlock(2)[unfolded same], of "\<lambda>s. m_pc (mthreads s ! t)"] t unlock(1)
      show ?thesis by simp
    qed
  qed
  with t show ?thesis by blast
next
  case False
  from nj obtain t where t: "t < length (mthreads s)"
    and busy: "\<not> (m_pc (mthreads s ! t) = M_for \<and> \<not> m_i (mthreads s ! t) < m_end (mthreads s ! t))"
    by (auto simp: mutex_joined_def list_all_length)
  from excl False t have ncs: "\<not> in_cs (m_pc (mthreads s ! t))" by (auto simp: mutex_excl_def)
  have a: "arr (mm s) = xs" and len: "length (mthreads s) = W" using wf by (simp_all add: mutex_wf_def)
  note ok = mutex_wf_worker[OF wf t, unfolded mutex_worker_ok_def]
  have "m_end (mthreads s ! t) \<le> length xs" using ok end_le_n[of t W "length xs"] t len by simp
  then have rd: "m_i (mthreads s ! t) < m_end (mthreads s ! t) \<Longrightarrow> m_i (mthreads s ! t) < length (arr (mm s))"
    using a by simp
  have "mutex_step t s \<noteq> s"
  proof
    assume same: "mutex_step t s = s"
    from t show False
    proof (cases rule: mutex_step_cases)
      case idle
      then show ?thesis using busy rd False by auto
    next
      case even
      from arg_cong[OF even(5)[unfolded same], of "\<lambda>s. m_pc (mthreads s ! t)"] t even(1)
      show ?thesis by simp
    next
      case odd
      from arg_cong[OF odd(5)[unfolded same], of "\<lambda>s. m_i (mthreads s ! t)"] t
      show ?thesis by simp
    next
      case lock
      from arg_cong[OF lock(3)[unfolded same], of "\<lambda>s. m_pc (mthreads s ! t)"] t lock(1)
      show ?thesis by simp
    next
      case load_sum then show ?thesis using ncs by simp
    next
      case store_sum then show ?thesis using ncs by simp
    next
      case cmp_gt then show ?thesis using ncs by simp
    next
      case cmp_le then show ?thesis using ncs by simp
    next
      case store_max then show ?thesis using ncs by simp
    next
      case unlock then show ?thesis using ncs by simp
    qed
  qed
  with t show ?thesis by blast
qed

lemma mutex_can_finish:
  "mutex_inv xs W s \<Longrightarrow> \<exists>sched. mutex_joined (mutex_run sched s)"
proof (induction "mutex_measure s" arbitrary: s rule: less_induct)
  case less
  show ?case
  proof (cases "mutex_joined s")
    case True
    then have "mutex_joined (mutex_run [] s)" by (simp add: mutex_run_Nil)
    then show ?thesis ..
  next
    case False
    from less.prems have wf: "mutex_wf xs W s" and excl: "mutex_excl s" by (simp_all add: mutex_inv_def)
    from mutex_can_move[OF wf excl False] obtain t
      where t: "t < length (mthreads s)" and mv: "mutex_step t s \<noteq> s" by blast
    have "mutex_measure (mutex_step t s) < mutex_measure s"
      using wf t mv by (rule mutex_step_decreases)
    moreover have "mutex_inv xs W (mutex_step t s)" using less.prems by (rule mutex_step_inv)
    ultimately obtain sched where "mutex_joined (mutex_run sched (mutex_step t s))"
      using less.hyps by blast
    then have "mutex_joined (mutex_run (t # sched) s)" by (simp add: mutex_run_Cons)
    then show ?thesis ..
  qed
qed

lemma lock_based_completes: "\<exists>sched m'. lock_based W sched m = Some m'"
proof -
  from mutex_can_finish[OF mutex_init_inv, of W m]
  obtain sched where "mutex_joined (mutex_run sched (mutex_init W m))" by blast
  then have "lock_based W sched m = Some (mm (mutex_run sched (mutex_init W m)))"
    by (simp add: lock_based_def)
  then show ?thesis by blast
qed

subsection \<open>The lock-free section\<close>

lemma atomic_wf_update:
  assumes "atomic_wf xs W s" "t < W" "arr m' = xs" "atomic_worker_ok xs W t w"
  shows "atomic_wf xs W \<lparr>am = m', athreads = (athreads s)[t := w]\<rparr>"
  using assms by (simp add: atomic_wf_def nth_list_update)

lemma atomic_wf_worker:
  "atomic_wf xs W s \<Longrightarrow> t < length (athreads s) \<Longrightarrow> atomic_worker_ok xs W t (athreads s ! t)"
  by (simp add: atomic_wf_def)

lemma atomic_sum_update:
  assumes inv: "atomic_sum_ok xs s" and t: "t < length (athreads s)"
    and sum: "atomic_sum m' = atomic_sum (am s)
        - seg_sum xs (a_start (athreads s ! t)) (a_i (athreads s ! t) + a_added (a_pc (athreads s ! t)))
        + seg_sum xs (a_start w) (a_i w + a_added (a_pc w))"
  shows "atomic_sum_ok xs \<lparr>am = m', athreads = (athreads s)[t := w]\<rparr>"
  using inv t unfolding atomic_sum_ok_def
  by (simp add: sum sum_list_map_update)

lemma atomic_max_covered:
  assumes "atomic_max_ok xs s" "u < length (athreads s)" "a_start (athreads s ! u) \<le> i"
    "i < a_i (athreads s ! u)" "is_even (xs ! i)"
  shows "xs ! i \<le>s atomic_max (am s)"
  using assms unfolding atomic_max_ok_def by blast

lemma atomic_max_seen:
  "atomic_max_ok xs s \<Longrightarrow> t < length (athreads s) \<Longrightarrow> a_pc (athreads s ! t) = A_cas \<Longrightarrow>
   a_current_max (athreads s ! t) \<le>s atomic_max (am s)"
  by (simp add: atomic_max_ok_def)

lemma atomic_max_update:
  assumes inv: "atomic_max_ok xs s" and t: "t < length (athreads s)"
    and mono: "atomic_max (am s) \<le>s atomic_max m'"
    and elem: "atomic_max m' = atomic_max (am s) \<or>
       (\<exists>j<length xs. is_even (xs ! j) \<and> xs ! j = atomic_max m')"
    and cover: "\<And>j. a_start w \<le> j \<Longrightarrow> j < a_i w \<Longrightarrow> is_even (xs ! j) \<Longrightarrow>
       xs ! j \<le>s atomic_max m'"
    and seen: "a_pc w = A_cas \<longrightarrow> a_current_max w \<le>s atomic_max m'"
  shows "atomic_max_ok xs \<lparr>am = m', athreads = (athreads s)[t := w]\<rparr>"
proof -
  from inv have a1: "- 1 \<le>s atomic_max (am s)"
    and a3: "atomic_max (am s) = - 1 \<or> (\<exists>j<length xs. is_even (xs ! j) \<and> xs ! j = atomic_max (am s))"
    unfolding atomic_max_ok_def by blast+
  have 1: "- 1 \<le>s atomic_max m'" using a1 mono by (rule sle_trans)
  have 2: "xs ! i \<le>s atomic_max m'"
    if "u < length (athreads s)" "a_start ((athreads s)[t := w] ! u) \<le> i"
      "i < a_i ((athreads s)[t := w] ! u)" "is_even (xs ! i)" for u i
  proof (cases "u = t")
    case True
    then show ?thesis using that t cover by simp
  next
    case False
    then have e: "(athreads s)[t := w] ! u = athreads s ! u" by simp
    from atomic_max_covered[OF inv that(1)] that e have "xs ! i \<le>s atomic_max (am s)" by simp
    then show ?thesis using mono by (rule sle_trans)
  qed
  have 3: "atomic_max m' = - 1 \<or> (\<exists>j<length xs. is_even (xs ! j) \<and> xs ! j = atomic_max m')"
    using a3 elem by auto
  have 4: "a_current_max ((athreads s)[t := w] ! u) \<le>s atomic_max m'"
    if "u < length (athreads s)" "a_pc ((athreads s)[t := w] ! u) = A_cas" for u
  proof (cases "u = t")
    case True
    then show ?thesis using that t seen by simp
  next
    case False
    then have e: "(athreads s)[t := w] ! u = athreads s ! u" by simp
    with that have p: "a_pc (athreads s ! u) = A_cas" by simp
    from atomic_max_seen[OF inv that(1) p] have "a_current_max (athreads s ! u) \<le>s atomic_max (am s)" .
    then show ?thesis unfolding e using mono by (rule sle_trans)
  qed
  show ?thesis unfolding atomic_max_ok_def using 1 2 3 4 by simp
qed

lemma atomic_measure_update:
  "t < length (athreads s) \<Longrightarrow> a_left w < a_left (athreads s ! t) \<Longrightarrow>
   atomic_measure \<lparr>am = m', athreads = (athreads s)[t := w]\<rparr> < atomic_measure s"
  by (simp add: atomic_measure_def sum_list_map_update_less)

lemma atomic_step_beyond: "\<not> fst e < length (athreads s) \<Longrightarrow> atomic_step e s = s"
  by (simp add: atomic_step_def Let_def)

lemma atomic_step_cases [consumes 1, case_names idle even odd fetch_add load cas_success cas_fail cas_skip]:
  assumes "t < length (athreads s)"
  obtains
    (idle) "atomic_step (t, b) s = s"
      "a_pc (athreads s ! t) = A_for"
      "\<not> (a_i (athreads s ! t) < a_end (athreads s ! t) \<and> a_i (athreads s ! t) < length (arr (am s)))"
  | (even) "a_pc (athreads s ! t) = A_for" "a_i (athreads s ! t) < a_end (athreads s ! t)"
      "a_i (athreads s ! t) < length (arr (am s))"
      "is_even (arr (am s) ! a_i (athreads s ! t))"
      "atomic_step (t, b) s = \<lparr>am = am s, athreads = (athreads s)[t := (athreads s ! t)
         \<lparr>a_x := arr (am s) ! a_i (athreads s ! t), a_pc := A_fetch_add\<rparr>]\<rparr>"
  | (odd) "a_pc (athreads s ! t) = A_for" "a_i (athreads s ! t) < a_end (athreads s ! t)"
      "a_i (athreads s ! t) < length (arr (am s))"
      "\<not> is_even (arr (am s) ! a_i (athreads s ! t))"
      "atomic_step (t, b) s = \<lparr>am = am s, athreads = (athreads s)[t := (athreads s ! t)
         \<lparr>a_x := arr (am s) ! a_i (athreads s ! t), a_i := a_i (athreads s ! t) + 1\<rparr>]\<rparr>"
  | (fetch_add) "a_pc (athreads s ! t) = A_fetch_add"
      "atomic_step (t, b) s =
         \<lparr>am = (am s)\<lparr>atomic_sum := atomic_sum (am s) + scast (a_x (athreads s ! t))\<rparr>,
          athreads = (athreads s)[t := (athreads s ! t)\<lparr>a_pc := A_load\<rparr>]\<rparr>"
  | (load) "a_pc (athreads s ! t) = A_load"
      "atomic_step (t, b) s = \<lparr>am = am s, athreads = (athreads s)[t := (athreads s ! t)
         \<lparr>a_current_max := atomic_max (am s), a_pc := A_cas\<rparr>]\<rparr>"
  | (cas_success) "a_pc (athreads s ! t) = A_cas"
      "a_current_max (athreads s ! t) <s a_x (athreads s ! t)"
      "atomic_max (am s) = a_current_max (athreads s ! t)" "\<not> b"
      "atomic_step (t, b) s =
         \<lparr>am = (am s)\<lparr>atomic_max := a_x (athreads s ! t)\<rparr>,
          athreads = (athreads s)[t := (athreads s ! t)
            \<lparr>a_i := a_i (athreads s ! t) + 1, a_pc := A_for\<rparr>]\<rparr>"
  | (cas_fail) "a_pc (athreads s ! t) = A_cas"
      "a_current_max (athreads s ! t) <s a_x (athreads s ! t)"
      "\<not> (atomic_max (am s) = a_current_max (athreads s ! t) \<and> \<not> b)"
      "atomic_step (t, b) s = \<lparr>am = am s, athreads = (athreads s)[t := (athreads s ! t)
         \<lparr>a_current_max := atomic_max (am s)\<rparr>]\<rparr>"
  | (cas_skip) "a_pc (athreads s ! t) = A_cas"
      "\<not> a_current_max (athreads s ! t) <s a_x (athreads s ! t)"
      "atomic_step (t, b) s = \<lparr>am = am s, athreads = (athreads s)[t := (athreads s ! t)
         \<lparr>a_i := a_i (athreads s ! t) + 1, a_pc := A_for\<rparr>]\<rparr>"
proof (cases "a_pc (athreads s ! t)")
  case A_for
  show ?thesis
  proof (cases "a_i (athreads s ! t) < a_end (athreads s ! t) \<and> a_i (athreads s ! t) < length (arr (am s))")
    case False
    then have "atomic_step (t, b) s = s" using A_for assms by (auto simp: atomic_step_def Let_def)
    then show ?thesis using False A_for by (intro idle) simp_all
  next
    case True
    show ?thesis
    proof (cases "is_even (arr (am s) ! a_i (athreads s ! t))")
      case e: True
      show ?thesis
        by (rule even) (use A_for True e assms in \<open>simp_all add: atomic_step_def Let_def\<close>)
    next
      case e: False
      show ?thesis
        by (rule odd) (use A_for True e assms in \<open>simp_all add: atomic_step_def Let_def\<close>)
    qed
  qed
next
  case A_fetch_add
  show ?thesis
    by (rule fetch_add) (use A_fetch_add assms in \<open>simp_all add: atomic_step_def Let_def\<close>)
next
  case A_load
  show ?thesis
    by (rule load) (use A_load assms in \<open>simp_all add: atomic_step_def Let_def\<close>)
next
  case A_cas
  show ?thesis
  proof (cases "a_current_max (athreads s ! t) <s a_x (athreads s ! t)")
    case False
    show ?thesis
      by (rule cas_skip) (use A_cas False assms in \<open>simp_all add: atomic_step_def Let_def\<close>)
  next
    case True
    show ?thesis
    proof (cases "atomic_max (am s) = a_current_max (athreads s ! t) \<and> \<not> b")
      case c: True
      show ?thesis
        by (rule cas_success) (use A_cas True c assms in \<open>simp_all add: atomic_step_def Let_def\<close>)
    next
      case c: False
      show ?thesis
        by (rule cas_fail) (use A_cas True c assms in \<open>auto simp: atomic_step_def Let_def\<close>)
    qed
  qed
qed

lemma atomic_step_wf:
  assumes "atomic_wf xs W s"
  shows "atomic_wf xs W (atomic_step e s)"
proof (cases "fst e < length (athreads s)")
  case False
  then show ?thesis using assms by (simp add: atomic_step_beyond)
next
  case True
  obtain t b where e: "e = (t, b)" by (cases e)
  from True e have t: "t < length (athreads s)" by simp
  then have tW: "t < W" using assms by (simp add: atomic_wf_def)
  have a: "arr (am s) = xs" using assms by (simp add: atomic_wf_def)
  note ok = atomic_wf_worker[OF assms t, unfolded atomic_worker_ok_def]
  from t have "atomic_wf xs W (atomic_step (t, b) s)"
  proof (cases rule: atomic_step_cases[where b = b])
    case idle
    then show ?thesis using assms by simp
  next
    case even
    show ?thesis unfolding even(5)
      by (rule atomic_wf_update[OF assms tW]) (use ok a even in \<open>auto simp: atomic_worker_ok_def\<close>)
  next
    case odd
    show ?thesis unfolding odd(5)
      by (rule atomic_wf_update[OF assms tW]) (use ok a odd in \<open>auto simp: atomic_worker_ok_def\<close>)
  next
    case fetch_add
    show ?thesis unfolding fetch_add(2)
      by (rule atomic_wf_update[OF assms tW]) (use ok a fetch_add in \<open>auto simp: atomic_worker_ok_def\<close>)
  next
    case load
    show ?thesis unfolding load(2)
      by (rule atomic_wf_update[OF assms tW]) (use ok a load in \<open>auto simp: atomic_worker_ok_def\<close>)
  next
    case cas_success
    show ?thesis unfolding cas_success(5)
      by (rule atomic_wf_update[OF assms tW]) (use ok a cas_success in \<open>auto simp: atomic_worker_ok_def\<close>)
  next
    case cas_fail
    show ?thesis unfolding cas_fail(4)
      by (rule atomic_wf_update[OF assms tW]) (use ok a cas_fail in \<open>auto simp: atomic_worker_ok_def\<close>)
  next
    case cas_skip
    show ?thesis unfolding cas_skip(3)
      by (rule atomic_wf_update[OF assms tW]) (use ok a cas_skip in \<open>auto simp: atomic_worker_ok_def\<close>)
  qed
  then show ?thesis by (simp add: e)
qed

lemma atomic_step_sum:
  assumes wf: "atomic_wf xs W s" and inv: "atomic_sum_ok xs s"
  shows "atomic_sum_ok xs (atomic_step e s)"
proof (cases "fst e < length (athreads s)")
  case False
  then show ?thesis using inv by (simp add: atomic_step_beyond)
next
  case True
  obtain t b where e: "e = (t, b)" by (cases e)
  from True e have t: "t < length (athreads s)" by simp
  have a: "arr (am s) = xs" using wf by (simp add: atomic_wf_def)
  note ok = atomic_wf_worker[OF wf t, unfolded atomic_worker_ok_def]
  from t have "atomic_sum_ok xs (atomic_step (t, b) s)"
  proof (cases rule: atomic_step_cases[where b = b])
    case idle
    then show ?thesis using inv by simp
  next
    case even
    show ?thesis unfolding even(5)
      by (rule atomic_sum_update[OF inv t]) (use even in simp_all)
  next
    case odd
    have "seg_sum xs (a_start (athreads s ! t)) (Suc (a_i (athreads s ! t)))
        = seg_sum xs (a_start (athreads s ! t)) (a_i (athreads s ! t))"
      using ok odd a by (intro seg_sum_Suc_odd) simp_all
    then show ?thesis unfolding odd(5)
      by (intro atomic_sum_update[OF inv t]) (use odd in simp_all)
  next
    case fetch_add
    have x: "scast (a_x (athreads s ! t)) = contrib (xs ! a_i (athreads s ! t))"
      using ok fetch_add(1) by (auto simp: contrib_def)
    have seg: "seg_sum xs (a_start (athreads s ! t)) (Suc (a_i (athreads s ! t)))
        = seg_sum xs (a_start (athreads s ! t)) (a_i (athreads s ! t)) + contrib (xs ! a_i (athreads s ! t))"
      using ok by (intro seg_sum_Suc) simp
    show ?thesis unfolding fetch_add(2)
      by (rule atomic_sum_update[OF inv t]) (use fetch_add(1) x seg in simp_all)
  next
    case load
    show ?thesis unfolding load(2)
      by (rule atomic_sum_update[OF inv t]) (use load in simp_all)
  next
    case cas_success
    show ?thesis unfolding cas_success(5)
      by (rule atomic_sum_update[OF inv t]) (use cas_success in simp_all)
  next
    case cas_fail
    show ?thesis unfolding cas_fail(4)
      by (rule atomic_sum_update[OF inv t]) (use cas_fail in simp_all)
  next
    case cas_skip
    show ?thesis unfolding cas_skip(3)
      by (rule atomic_sum_update[OF inv t]) (use cas_skip in simp_all)
  qed
  then show ?thesis by (simp add: e)
qed

lemma atomic_step_max:
  assumes wf: "atomic_wf xs W s" and inv: "atomic_max_ok xs s"
  shows "atomic_max_ok xs (atomic_step e s)"
proof (cases "fst e < length (athreads s)")
  case False
  then show ?thesis using inv by (simp add: atomic_step_beyond)
next
  case True
  obtain t b where e: "e = (t, b)" by (cases e)
  from True e have t: "t < length (athreads s)" by simp
  have a: "arr (am s) = xs" using wf by (simp add: atomic_wf_def)
  have tW: "t < W" using wf t by (simp add: atomic_wf_def)
  note ok = atomic_wf_worker[OF wf t, unfolded atomic_worker_ok_def]
  note old = atomic_max_covered[OF inv t]
  have in_range: "a_i (athreads s ! t) < length xs" if "a_pc (athreads s ! t) \<noteq> A_for"
  proof -
    have "a_i (athreads s ! t) < end_idx (length xs) W t" using ok that by simp
    also have "\<dots> \<le> length xs" using tW by (rule end_le_n)
    finally show ?thesis .
  qed
  from t have "atomic_max_ok xs (atomic_step (t, b) s)"
  proof (cases rule: atomic_step_cases[where b = b])
    case idle
    then show ?thesis using inv by simp
  next
    case even
    show ?thesis unfolding even(5)
      by (rule atomic_max_update[OF inv t]) (use even old in \<open>simp_all add: sle_refl\<close>)
  next
    case odd
    have c: "xs ! j \<le>s atomic_max (am s)"
      if "a_start (athreads s ! t) \<le> j" "j < Suc (a_i (athreads s ! t))" "is_even (xs ! j)" for j
    proof (cases "j = a_i (athreads s ! t)")
      case True
      then show ?thesis using that odd a by simp
    next
      case False
      then show ?thesis using that old[of j] by simp
    qed
    show ?thesis unfolding odd(5)
      by (rule atomic_max_update[OF inv t]) (use odd c in \<open>simp_all add: sle_refl\<close>)
  next
    case fetch_add
    show ?thesis unfolding fetch_add(2)
      by (rule atomic_max_update[OF inv t]) (use fetch_add old in \<open>simp_all add: sle_refl\<close>)
  next
    case load
    show ?thesis unfolding load(2)
      by (rule atomic_max_update[OF inv t]) (use load old in \<open>simp_all add: sle_refl\<close>)
  next
    case cas_success
    have xi: "a_x (athreads s ! t) = xs ! a_i (athreads s ! t)"
      and ev: "is_even (a_x (athreads s ! t))" using ok cas_success(1) by auto
    have gt: "atomic_max (am s) <s a_x (athreads s ! t)"
      using cas_success(2,3) by simp
    have el: "\<exists>j<length xs. is_even (xs ! j) \<and> xs ! j = a_x (athreads s ! t)"
      using in_range xi ev cas_success(1) by (intro exI[of _ "a_i (athreads s ! t)"]) simp
    have c: "xs ! j \<le>s a_x (athreads s ! t)"
      if "a_start (athreads s ! t) \<le> j" "j < Suc (a_i (athreads s ! t))" "is_even (xs ! j)" for j
    proof (cases "j = a_i (athreads s ! t)")
      case True
      then show ?thesis using xi by (simp add: sle_refl)
    next
      case False
      then have "xs ! j \<le>s atomic_max (am s)" using that old[of j] by simp
      then show ?thesis using sless_imp_sle[OF gt] by (rule sle_trans)
    qed
    show ?thesis unfolding cas_success(5)
      by (rule atomic_max_update[OF inv t])
        (use c el sless_imp_sle[OF gt] in simp_all)
  next
    case cas_fail
    show ?thesis unfolding cas_fail(4)
      by (rule atomic_max_update[OF inv t]) (use cas_fail old in \<open>simp_all add: sle_refl\<close>)
  next
    case cas_skip
    have xi: "a_x (athreads s ! t) = xs ! a_i (athreads s ! t)" using ok cas_skip(1) by simp
    have "a_x (athreads s ! t) \<le>s a_current_max (athreads s ! t)"
      using cas_skip(2) by (simp add: not_sless_sle)
    then have le: "a_x (athreads s ! t) \<le>s atomic_max (am s)"
      using atomic_max_seen[OF inv t cas_skip(1)] by (rule sle_trans)
    have c: "xs ! j \<le>s atomic_max (am s)"
      if "a_start (athreads s ! t) \<le> j" "j < Suc (a_i (athreads s ! t))" "is_even (xs ! j)" for j
    proof (cases "j = a_i (athreads s ! t)")
      case True
      then show ?thesis using le xi by simp
    next
      case False
      then show ?thesis using that old[of j] by simp
    qed
    show ?thesis unfolding cas_skip(3)
      by (rule atomic_max_update[OF inv t]) (use cas_skip c in \<open>simp_all add: sle_refl\<close>)
  qed
  then show ?thesis by (simp add: e)
qed

lemma atomic_step_inv: "atomic_inv xs W s \<Longrightarrow> atomic_inv xs W (atomic_step e s)"
  unfolding atomic_inv_def
  by (blast intro: atomic_step_wf atomic_step_sum atomic_step_max)

lemma atomic_run_Nil: "atomic_run [] s = s"
  by (simp add: atomic_run_def)

lemma atomic_run_Cons: "atomic_run (e # sched) s = atomic_run sched (atomic_step e s)"
  by (simp add: atomic_run_def)

lemma atomic_run_append: "atomic_run (p @ q) s = atomic_run q (atomic_run p s)"
  by (simp add: atomic_run_def)

lemma atomic_run_inv: "atomic_inv xs W s \<Longrightarrow> atomic_inv xs W (atomic_run sched s)"
  by (induction sched arbitrary: s) (simp_all add: atomic_run_Nil atomic_run_Cons atomic_step_inv)

lemma atomic_init_inv: "atomic_inv (arr m) W (atomic_init W m)"
proof -
  have wf: "atomic_wf (arr m) W (atomic_init W m)"
    by (simp add: atomic_wf_def atomic_init_def atomic_worker_ok_def atomic_spawn_def start_le_end)
  have sum: "atomic_sum_ok (arr m) (atomic_init W m)"
    by (simp add: atomic_sum_ok_def atomic_init_def atomic_spawn_def o_def seg_sum_empty)
  have mx: "atomic_max_ok (arr m) (atomic_init W m)"
    by (simp add: atomic_max_ok_def atomic_init_def atomic_spawn_def sle_refl)
  show ?thesis unfolding atomic_inv_def using wf sum mx by simp
qed

lemma atomic_joined_nth:
  "atomic_joined s \<Longrightarrow> t < length (athreads s) \<Longrightarrow>
   a_pc (athreads s ! t) = A_for \<and> \<not> a_i (athreads s ! t) < a_end (athreads s ! t)"
  by (simp add: atomic_joined_def list_all_length)

lemma atomic_joined_sum:
  assumes inv: "atomic_inv xs W s" and j: "atomic_joined s" and W: "0 < W"
  shows "atomic_sum (am s) = sum_list (map contrib xs)"
proof -
  from inv have wf: "atomic_wf xs W s" and sm: "atomic_sum_ok xs s" by (simp_all add: atomic_inv_def)
  have len: "length (athreads s) = W" using wf by (simp add: atomic_wf_def)
  have g: "seg_sum xs (a_start (athreads s ! t)) (a_i (athreads s ! t) + a_added (a_pc (athreads s ! t)))
      = seg_sum xs (start_idx (length xs) W t) (end_idx (length xs) W t)" if "t < W" for t
  proof -
    from that len have t: "t < length (athreads s)" by simp
    note ok = atomic_wf_worker[OF wf t, unfolded atomic_worker_ok_def]
    from atomic_joined_nth[OF j t] ok show ?thesis by auto
  qed
  have "atomic_sum (am s) = (\<Sum>t = 0..<W.
      seg_sum xs (a_start (athreads s ! t)) (a_i (athreads s ! t) + a_added (a_pc (athreads s ! t))))"
    using sm by (simp add: atomic_sum_ok_def sum_list_map_nth len)
  also have "\<dots> = (\<Sum>t = 0..<W. seg_sum xs (start_idx (length xs) W t) (end_idx (length xs) W t))"
    by (rule sum.cong) (simp_all add: g)
  also have "\<dots> = seg_sum xs 0 (length xs)" using W by (rule seg_sum_chunks)
  finally show ?thesis by (simp add: seg_sum_all)
qed

lemma atomic_joined_max:
  assumes inv: "atomic_inv xs W s" and j: "atomic_joined s" and W: "0 < W"
  shows "max_spec xs (atomic_max (am s))"
proof -
  from inv have wf: "atomic_wf xs W s" and mx: "atomic_max_ok xs s" by (simp_all add: atomic_inv_def)
  have len: "length (athreads s) = W" using wf by (simp add: atomic_wf_def)
  have cover: "xs ! i \<le>s atomic_max (am s)" if "i < length xs" "is_even (xs ! i)" for i
  proof -
    from that(1) have "i \<in> (\<Union>t<W. {start_idx (length xs) W t ..< end_idx (length xs) W t})"
      using chunks_cover[OF W, of "length xs"] by simp
    then obtain t where tW: "t < W" and lo: "start_idx (length xs) W t \<le> i"
      and hi: "i < end_idx (length xs) W t" by auto
    from tW len have t: "t < length (athreads s)" by simp
    note ok = atomic_wf_worker[OF wf t, unfolded atomic_worker_ok_def]
    from atomic_joined_nth[OF j t] ok have "a_i (athreads s ! t) = end_idx (length xs) W t"
      "a_start (athreads s ! t) = start_idx (length xs) W t" by auto
    then show ?thesis using atomic_max_covered[OF mx t, of i] lo hi that(2) by simp
  qed
  from mx have "- 1 \<le>s atomic_max (am s)"
    "atomic_max (am s) = - 1 \<or> (\<exists>j<length xs. is_even (xs ! j) \<and> xs ! j = atomic_max (am s))"
    by (simp_all add: atomic_max_ok_def)
  then show ?thesis using cover by (simp add: max_spec_def)
qed

lemma atomic_step_frame:
  "arr (am (atomic_step e s)) = arr (am s)"
  "sum_even (am (atomic_step e s)) = sum_even (am s)"
  "max_even (am (atomic_step e s)) = max_even (am s)"
  "mtx (am (atomic_step e s)) = mtx (am s)"
proof -
  have "arr (am (atomic_step e s)) = arr (am s) \<and>
    sum_even (am (atomic_step e s)) = sum_even (am s) \<and>
    max_even (am (atomic_step e s)) = max_even (am s) \<and>
    mtx (am (atomic_step e s)) = mtx (am s)"
  proof (cases "fst e < length (athreads s)")
    case False
    then show ?thesis by (simp add: atomic_step_beyond)
  next
    case True
    obtain t b where e: "e = (t, b)" by (cases e)
    from True e have "t < length (athreads s)" by simp
    then show ?thesis unfolding e by (cases rule: atomic_step_cases[where b = b]) simp_all
  qed
  then show "arr (am (atomic_step e s)) = arr (am s)"
    "sum_even (am (atomic_step e s)) = sum_even (am s)"
    "max_even (am (atomic_step e s)) = max_even (am s)"
    "mtx (am (atomic_step e s)) = mtx (am s)" by simp_all
qed

lemma atomic_run_frame:
  "arr (am (atomic_run sched s)) = arr (am s)"
  "sum_even (am (atomic_run sched s)) = sum_even (am s)"
  "max_even (am (atomic_run sched s)) = max_even (am s)"
  "mtx (am (atomic_run sched s)) = mtx (am s)"
  by (induction sched arbitrary: s; simp add: atomic_run_Nil atomic_run_Cons atomic_step_frame)+

lemma lock_free_eq_sequential:
  assumes "lock_free W sched m = Some m'" "0 < W"
  shows "atomic_sum m' = sum_even (sequential m)" "atomic_max m' = max_even (sequential m)"
    "arr m' = arr m" "sum_even m' = sum_even m" "max_even m' = max_even m"
proof -
  let ?s = "atomic_run sched (atomic_init W m)"
  from assms(1) have j: "atomic_joined ?s" and m': "m' = am ?s"
    by (simp_all add: lock_free_def Let_def split: if_splits)
  have inv: "atomic_inv (arr m) W ?s" by (intro atomic_run_inv atomic_init_inv)
  show "atomic_sum m' = sum_even (sequential m)"
    using atomic_joined_sum[OF inv j assms(2)] by (simp add: m' sequential_sum)
  show "atomic_max m' = max_even (sequential m)"
    using atomic_joined_max[OF inv j assms(2)] sequential_max[of m] unfolding m'
    by (rule max_spec_unique)
  show "arr m' = arr m" "sum_even m' = sum_even m" "max_even m' = max_even m"
    by (simp_all add: m' atomic_run_frame atomic_init_def)
qed

subsection \<open>The lock-free section: the threads can always finish\<close>

lemma atomic_thread_progress:
  assumes wf: "atomic_wf xs W s" and t: "t < length (athreads s)"
    and busy: "\<not> (a_pc (athreads s ! t) = A_for \<and> \<not> a_i (athreads s ! t) < a_end (athreads s ! t))"
  shows "atomic_measure (atomic_step (t, False) s) < atomic_measure s \<or>
     atomic_measure (atomic_step (t, False) (atomic_step (t, False) s)) < atomic_measure s"
proof -
  have a: "arr (am s) = xs" and len: "length (athreads s) = W" using wf by (simp_all add: atomic_wf_def)
  note ok = atomic_wf_worker[OF wf t, unfolded atomic_worker_ok_def]
  have "a_end (athreads s ! t) \<le> length xs" using ok end_le_n[of t W "length xs"] t len by simp
  then have rd: "a_i (athreads s ! t) < a_end (athreads s ! t) \<Longrightarrow> a_i (athreads s ! t) < length (arr (am s))"
    using a by simp
  from t show ?thesis
  proof (cases rule: atomic_step_cases[where b = False])
    case idle
    then show ?thesis using busy rd by auto
  next
    case even
    have "atomic_measure (atomic_step (t, False) s) < atomic_measure s" unfolding even(5)
      by (rule atomic_measure_update[OF t]) (use even in \<open>simp add: a_left_def\<close>)
    then show ?thesis ..
  next
    case odd
    have "atomic_measure (atomic_step (t, False) s) < atomic_measure s" unfolding odd(5)
      by (rule atomic_measure_update[OF t]) (use odd in \<open>simp add: a_left_def\<close>)
    then show ?thesis ..
  next
    case fetch_add
    have "atomic_measure (atomic_step (t, False) s) < atomic_measure s" unfolding fetch_add(2)
      by (rule atomic_measure_update[OF t]) (use fetch_add ok in \<open>auto simp: a_left_def\<close>)
    then show ?thesis ..
  next
    case load
    have "atomic_measure (atomic_step (t, False) s) < atomic_measure s" unfolding load(2)
      by (rule atomic_measure_update[OF t]) (use load ok in \<open>auto simp: a_left_def\<close>)
    then show ?thesis ..
  next
    case cas_success
    have "atomic_measure (atomic_step (t, False) s) < atomic_measure s" unfolding cas_success(5)
      by (rule atomic_measure_update[OF t]) (use cas_success ok in \<open>auto simp: a_left_def\<close>)
    then show ?thesis ..
  next
    case cas_skip
    have "atomic_measure (atomic_step (t, False) s) < atomic_measure s" unfolding cas_skip(3)
      by (rule atomic_measure_update[OF t]) (use cas_skip ok in \<open>auto simp: a_left_def\<close>)
    then show ?thesis ..
  next
    case cas_fail
    let ?w = "athreads s ! t"
    let ?w1 = "?w\<lparr>a_current_max := atomic_max (am s)\<rparr>"
    let ?s1 = "\<lparr>am = am s, athreads = (athreads s)[t := ?w1]\<rparr>"
    let ?w2 = "?w1\<lparr>a_i := a_i ?w + 1, a_pc := A_for\<rparr>"
    have less: "a_left ?w2 < a_left ?w" using cas_fail(1) ok by (auto simp: a_left_def)
    have "\<exists>m2. atomic_step (t, False) ?s1 = \<lparr>am = m2, athreads = (athreads s)[t := ?w2]\<rparr>"
      using t cas_fail(1) by (simp add: atomic_step_def Let_def)
    then obtain m2 where "atomic_step (t, False) ?s1 = \<lparr>am = m2, athreads = (athreads s)[t := ?w2]\<rparr>" ..
    then have "atomic_measure (atomic_step (t, False) ?s1) < atomic_measure s"
      using atomic_measure_update[OF t less] by simp
    then show ?thesis unfolding cas_fail(4) ..
  qed
qed

lemma atomic_can_finish:
  "atomic_inv xs W s \<Longrightarrow> \<exists>sched. atomic_joined (atomic_run sched s)"
proof (induction "atomic_measure s" arbitrary: s rule: less_induct)
  case less
  show ?case
  proof (cases "atomic_joined s")
    case True
    then have "atomic_joined (atomic_run [] s)" by (simp add: atomic_run_Nil)
    then show ?thesis ..
  next
    case False
    from less.prems have wf: "atomic_wf xs W s" by (simp add: atomic_inv_def)
    from False obtain t where t: "t < length (athreads s)"
      and busy: "\<not> (a_pc (athreads s ! t) = A_for \<and> \<not> a_i (athreads s ! t) < a_end (athreads s ! t))"
      by (auto simp: atomic_joined_def list_all_length)
    from atomic_thread_progress[OF wf t busy]
    obtain p where p: "atomic_measure (atomic_run p s) < atomic_measure s"
    proof
      assume "atomic_measure (atomic_step (t, False) s) < atomic_measure s"
      then have "atomic_measure (atomic_run [(t, False)] s) < atomic_measure s"
        by (simp add: atomic_run_Cons atomic_run_Nil)
      then show ?thesis by (rule that)
    next
      assume "atomic_measure (atomic_step (t, False) (atomic_step (t, False) s)) < atomic_measure s"
      then have "atomic_measure (atomic_run [(t, False), (t, False)] s) < atomic_measure s"
        by (simp add: atomic_run_Cons atomic_run_Nil)
      then show ?thesis by (rule that)
    qed
    have "atomic_inv xs W (atomic_run p s)" using less.prems by (rule atomic_run_inv)
    with p obtain q where "atomic_joined (atomic_run q (atomic_run p s))"
      using less.hyps by blast
    then have "atomic_joined (atomic_run (p @ q) s)" by (simp add: atomic_run_append)
    then show ?thesis ..
  qed
qed

lemma lock_free_completes: "\<exists>sched m'. lock_free W sched m = Some m'"
proof -
  from atomic_can_finish[OF atomic_init_inv, of W m]
  obtain sched where "atomic_joined (atomic_run sched (atomic_init W m))" by blast
  then have "lock_free W sched m = Some (am (atomic_run sched (atomic_init W m)))"
    by (simp add: lock_free_def)
  then show ?thesis by blast
qed

subsection \<open>Exact values, and the three sections together\<close>

lemma sum_list_contrib_int: "sum_list (map contrib_int xs) = even_sum xs"
  unfolding even_sum_def by (induction xs) (simp_all add: contrib_int_def)

lemma sint_sequential_sum:
  assumes "length (arr m) < 2 ^ 31"
  shows "sint (sum_even (sequential m)) = even_sum (arr m)"
proof -
  from assms have "length (arr m) < 2 ^ 32" by simp
  then show ?thesis by (simp add: sequential_sum sint_sum_list_contrib sum_list_contrib_int)
qed

lemma even_sum_bounds:
  assumes "length xs < 2 ^ 31"
  shows "- (2 ^ 62) \<le> even_sum xs" "even_sum xs \<le> 2 ^ 62"
proof -
  from assms have l: "int (length xs) \<le> 2 ^ 31" by simp
  have "2 ^ 31 * int (length xs) \<le> 2 ^ 31 * 2 ^ 31" using l by (intro mult_left_mono) simp_all
  then have b: "2 ^ 31 * int (length xs) \<le> 2 ^ 62" by simp
  from sum_list_contrib_int_bounds[of xs] b
  show "- (2 ^ 62) \<le> even_sum xs" "even_sum xs \<le> 2 ^ 62"
    by (simp_all add: sum_list_contrib_int)
qed

lemma max_spec_Max:
  assumes "max_spec xs m"
  shows "sint m = Max (insert (- 1) (sint ` set (filter is_even xs)))"
proof -
  let ?S = "insert (- 1) (sint ` set (filter is_even xs))"
  from assms have lo: "- 1 \<le>s m"
    and up: "\<And>i. i < length xs \<Longrightarrow> is_even (xs ! i) \<Longrightarrow> xs ! i \<le>s m"
    and el: "m = - 1 \<or> (\<exists>j<length xs. is_even (xs ! j) \<and> xs ! j = m)"
    unfolding max_spec_def by blast+
  have fin: "finite ?S" by simp
  have mem: "sint m \<in> ?S"
  proof (rule disjE[OF el])
    assume "m = - 1" then show ?thesis by simp
  next
    assume "\<exists>j<length xs. is_even (xs ! j) \<and> xs ! j = m"
    then obtain j where "j < length xs" "is_even (xs ! j)" "xs ! j = m" by blast
    then have "m \<in> set (filter is_even xs)" by auto
    then show ?thesis by blast
  qed
  have ub: "y \<le> sint m" if "y \<in> ?S" for y
  proof (cases "y = - 1")
    case True
    then show ?thesis using lo by (simp add: word_sle_eq)
  next
    case False
    with that obtain x where x: "x \<in> set xs" "is_even x" "y = sint x" by auto
    then obtain i where "i < length xs" "xs ! i = x" by (auto simp: in_set_conv_nth)
    with up[of i] x show ?thesis by (simp add: word_sle_eq)
  qed
  show ?thesis using fin mem ub by (intro Max_eqI[symmetric]) auto
qed

lemma claimed_max_nonneg:
  assumes "\<forall>x\<in>set xs. is_even x \<longrightarrow> 0 \<le> sint x"
  shows "Max (insert (- 1) (sint ` set (filter is_even xs))) = claimed_max xs"
proof (cases "filter is_even xs = []")
  case True
  then show ?thesis by (simp add: claimed_max_def)
next
  case False
  let ?A = "sint ` set (filter is_even xs)"
  from False obtain x where x: "x \<in> set (filter is_even xs)"
    by (cases "filter is_even xs") auto
  then have y: "sint x \<in> ?A" by (rule imageI)
  then have ne: "?A \<noteq> {}" using equals0D by fastforce
  have fin: "finite ?A" by simp
  from x assms have "0 \<le> sint x" by simp
  moreover have "sint x \<le> Max ?A" using fin y by (rule Max_ge)
  ultimately have "- 1 \<le> Max ?A" by simp
  then have "Max (insert (- 1) ?A) = Max ?A" using fin ne by (simp add: max_def)
  then show ?thesis using False by (simp add: claimed_max_def)
qed

lemma combine_sint:
  assumes "- (2 ^ 62) \<le> sint s" "sint s \<le> 2 ^ 62"
  shows "sint (combine m s) = 2 * sint m - sint s"
proof -
  have m: "- (2 ^ 31) \<le> sint m" "sint m < 2 ^ 31" by (rule sint32_bounds)+
  have two: "sint (2 * scast m :: int64) = 2 * sint m"
    using m by (simp add: sint_word_ariths sint_scast_32_64 signed_take_bit_int_eq_self)
  have "sint (2 * scast m - s) = signed_take_bit 63 (sint (2 * scast m :: int64) - sint s)"
    by (simp add: sint_word_ariths)
  also have "\<dots> = 2 * sint m - sint s"
    unfolding two using m assms by (intro signed_take_bit_int_eq_self) simp_all
  finally have "sint (2 * scast m - s) = 2 * sint m - sint s" .
  then show ?thesis by (simp add: combine_def)
qed

lemma sequential_arr_only:
  assumes "arr m = arr m'"
  shows "sum_even (sequential m) = sum_even (sequential m')"
    "max_even (sequential m) = max_even (sequential m')"
proof -
  show "sum_even (sequential m) = sum_even (sequential m')" by (simp add: sequential_sum assms)
  show "max_even (sequential m) = max_even (sequential m')"
    using sequential_max[of m] sequential_max[of m'] unfolding assms by (rule max_spec_unique)
qed

lemma main_SomeD:
  assumes "main W sm sa xs = Some r"
  obtains m2 m3 where "lock_based W sm (sequential (initial xs)) = Some m2"
    "lock_free W sa m2 = Some m3"
    "r = \<lparr>result_seq = combine (max_even (sequential (initial xs))) (sum_even (sequential (initial xs))),
          max_seq = max_even (sequential (initial xs)),
          result_mutex = combine (max_even m2) (sum_even m2), max_mutex = max_even m2,
          result_atomic = combine (atomic_max m3) (atomic_sum m3), max_atomic = atomic_max m3,
          final_arr = arr m3\<rparr>"
  using assms by (auto simp: main_def Let_def split: option.splits)

lemma main_report:
  assumes r: "main W sm sa xs = Some r" and W: "0 < W"
  shows "result_seq r = combine (max_even (sequential (initial xs))) (sum_even (sequential (initial xs)))"
    "max_seq r = max_even (sequential (initial xs))"
    "result_mutex r = result_seq r" "max_mutex r = max_seq r"
    "result_atomic r = result_seq r" "max_atomic r = max_seq r"
    "final_arr r = xs"
proof -
  let ?m1 = "sequential (initial xs)"
  from r obtain m2 m3 where m2: "lock_based W sm ?m1 = Some m2"
    and m3: "lock_free W sa m2 = Some m3"
    and rr: "r = \<lparr>result_seq = combine (max_even ?m1) (sum_even ?m1), max_seq = max_even ?m1,
          result_mutex = combine (max_even m2) (sum_even m2), max_mutex = max_even m2,
          result_atomic = combine (atomic_max m3) (atomic_sum m3), max_atomic = atomic_max m3,
          final_arr = arr m3\<rparr>" by (rule main_SomeD)
  have a1: "arr ?m1 = xs" by (simp add: sequential_frame initial_def)
  note lb = lock_based_eq_sequential[OF m2 W]
  note lf = lock_free_eq_sequential[OF m3 W]
  have a2: "arr m2 = arr ?m1" by (rule lb(3))
  have s1: "sum_even (sequential ?m1) = sum_even ?m1" "max_even (sequential ?m1) = max_even ?m1"
    using sequential_arr_only[of ?m1 "initial xs"] a1 by (simp_all add: initial_def)
  have s2: "sum_even (sequential m2) = sum_even ?m1" "max_even (sequential m2) = max_even ?m1"
    using sequential_arr_only[of m2 ?m1] a2 s1 by simp_all
  show "result_seq r = combine (max_even ?m1) (sum_even ?m1)" "max_seq r = max_even ?m1"
    by (simp_all add: rr)
  show "result_mutex r = result_seq r" "max_mutex r = max_seq r"
    by (simp_all add: rr lb(1,2) s1)
  show "result_atomic r = result_seq r" "max_atomic r = max_seq r"
    by (simp_all add: rr lf(1,2) s2)
  show "final_arr r = xs" by (simp add: rr lf(3) a2 a1)
qed

lemma main_completes: "\<exists>sm sa r. main W sm sa xs = Some r"
proof -
  obtain sm m2 where m2: "lock_based W sm (sequential (initial xs)) = Some m2"
    using lock_based_completes by blast
  obtain sa m3 where m3: "lock_free W sa m2 = Some m3"
    using lock_free_completes by blast
  have "main W sm sa xs \<noteq> None" using m2 m3 by (simp add: main_def Let_def)
  then obtain r where "main W sm sa xs = Some r" by (cases "main W sm sa xs") simp_all
  then show ?thesis by (intro exI)
qed

lemma sequential_no_even:
  assumes "\<forall>x\<in>set (arr m). \<not> is_even x"
  shows "sum_even (sequential m) = 0" "max_even (sequential m) = - 1"
proof -
  have "foldl seq_body m0 ys = m0" if "\<forall>x\<in>set ys. \<not> is_even x" for ys m0
    using that by (induction ys arbitrary: m0) (simp_all add: seq_body_def)
  from this[OF assms] show "sum_even (sequential m) = 0" "max_even (sequential m) = - 1"
    by (simp_all add: sequential_def)
qed

lemma atomic_step_max_mono: "atomic_max (am s) \<le>s atomic_max (am (atomic_step e s))"
proof (cases "fst e < length (athreads s)")
  case False
  then show ?thesis by (simp add: atomic_step_beyond sle_refl)
next
  case True
  obtain t b where e: "e = (t, b)" by (cases e)
  from True e have "t < length (athreads s)" by simp
  then have "atomic_max (am s) \<le>s atomic_max (am (atomic_step (t, b) s))"
  proof (cases rule: atomic_step_cases[where b = b])
    case cas_success
    then show ?thesis by (simp add: sless_imp_sle)
  qed (simp_all add: sle_refl)
  then show ?thesis by (simp add: e)
qed

lemma atomic_run_max_mono: "atomic_max (am s) \<le>s atomic_max (am (atomic_run sched s))"
proof (induction sched arbitrary: s)
  case Nil
  then show ?case by (simp add: atomic_run_Nil sle_refl)
next
  case (Cons e sched)
  have "atomic_max (am s) \<le>s atomic_max (am (atomic_step e s))" by (rule atomic_step_max_mono)
  then show ?case unfolding atomic_run_Cons using Cons.IH by (rule sle_trans)
qed

lemma atomic_step_max_change:
  assumes "atomic_max (am (atomic_step e s)) \<noteq> atomic_max (am s)"
  shows "atomic_max (am s) <s atomic_max (am (atomic_step e s)) \<and>
    fst e < length (athreads s) \<and> a_pc (athreads s ! fst e) = A_cas \<and>
    atomic_max (am (atomic_step e s)) = a_x (athreads s ! fst e) \<and>
    atomic_max (am s) = a_current_max (athreads s ! fst e)"
proof (cases "fst e < length (athreads s)")
  case False
  then show ?thesis using assms by (simp add: atomic_step_beyond)
next
  case True
  obtain t b where e: "e = (t, b)" by (cases e)
  from True e have t: "t < length (athreads s)" by simp
  from assms have ch: "atomic_max (am (atomic_step (t, b) s)) \<noteq> atomic_max (am s)" by (simp add: e)
  from t have "atomic_max (am s) <s atomic_max (am (atomic_step (t, b) s)) \<and>
    a_pc (athreads s ! t) = A_cas \<and>
    atomic_max (am (atomic_step (t, b) s)) = a_x (athreads s ! t) \<and>
    atomic_max (am s) = a_current_max (athreads s ! t)"
  proof (cases rule: atomic_step_cases[where b = b])
    case cas_success
    then show ?thesis by simp
  qed (use ch in simp_all)
  then show ?thesis using t by (auto simp: e)
qed

lemma atomic_step_skip:
  assumes "t < length (athreads s)" "a_pc (athreads s ! t) = A_cas"
    "\<not> a_current_max (athreads s ! t) <s a_x (athreads s ! t)"
  shows "atomic_step (t, b) s =
    s\<lparr>athreads := (athreads s)[t := (athreads s ! t)\<lparr>a_i := a_i (athreads s ! t) + 1, a_pc := A_for\<rparr>]\<rparr>"
  using assms by (simp add: atomic_step_def Let_def)

lemma mutex_reads_in_range:
  assumes "mutex_wf xs W s" "t < length (mthreads s)" "m_i (mthreads s ! t) < m_end (mthreads s ! t)"
  shows "m_i (mthreads s ! t) < length (arr (mm s))"
proof -
  from assms(1,2) have tW: "t < W" and a: "arr (mm s) = xs" by (simp_all add: mutex_wf_def)
  note ok = mutex_wf_worker[OF assms(1,2), unfolded mutex_worker_ok_def]
  have "m_i (mthreads s ! t) < end_idx (length xs) W t" using ok assms(3) by simp
  also have "\<dots> \<le> length xs" using tW by (rule end_le_n)
  finally show ?thesis by (simp add: a)
qed

lemma atomic_reads_in_range:
  assumes "atomic_wf xs W s" "t < length (athreads s)" "a_i (athreads s ! t) < a_end (athreads s ! t)"
  shows "a_i (athreads s ! t) < length (arr (am s))"
proof -
  from assms(1,2) have tW: "t < W" and a: "arr (am s) = xs" by (simp_all add: atomic_wf_def)
  note ok = atomic_wf_worker[OF assms(1,2), unfolded atomic_worker_ok_def]
  have "a_i (athreads s ! t) < end_idx (length xs) W t" using ok assms(3) by simp
  also have "\<dots> \<le> length xs" using tW by (rule end_le_n)
  finally show ?thesis by (simp add: a)
qed

lemma lock_based_extends: "\<exists>q m2. lock_based W (p @ q) m = Some m2"
proof -
  have "mutex_inv (arr m) W (mutex_run p (mutex_init W m))"
    by (intro mutex_run_inv mutex_init_inv)
  then obtain q where "mutex_joined (mutex_run q (mutex_run p (mutex_init W m)))"
    using mutex_can_finish by blast
  then have "lock_based W (p @ q) m = Some (mm (mutex_run (p @ q) (mutex_init W m)))"
    by (simp add: lock_based_def mutex_run_append)
  then show ?thesis by (intro exI)
qed

lemma lock_free_extends: "\<exists>q m3. lock_free W (p @ q) m = Some m3"
proof -
  have "atomic_inv (arr m) W (atomic_run p (atomic_init W m))"
    by (intro atomic_run_inv atomic_init_inv)
  then obtain q where "atomic_joined (atomic_run q (atomic_run p (atomic_init W m)))"
    using atomic_can_finish by blast
  then have "lock_free W (p @ q) m = Some (am (atomic_run (p @ q) (atomic_init W m)))"
    by (simp add: lock_free_def atomic_run_append)
  then show ?thesis by (intro exI)
qed

lemma lock_based_frame: "lock_based W sched m = Some m' \<Longrightarrow> arr m' = arr m"
  by (auto simp: lock_based_def Let_def mutex_run_frame mutex_init_def split: if_splits)

lemma lock_free_frame: "lock_free W sched m = Some m' \<Longrightarrow> arr m' = arr m"
  by (auto simp: lock_free_def Let_def atomic_run_frame atomic_init_def split: if_splits)

lemma main_final_arr:
  assumes "main W sm sa xs = Some r"
  shows "final_arr r = xs"
proof -
  from assms obtain m2 m3 where m2: "lock_based W sm (sequential (initial xs)) = Some m2"
    and m3: "lock_free W sa m2 = Some m3" and fa: "final_arr r = arr m3"
    by (rule main_SomeD) simp
  show ?thesis
    using lock_free_frame[OF m3] lock_based_frame[OF m2]
    by (simp add: fa sequential_frame initial_def)
qed

lemma mutex_run_reads_in_range:
  assumes "t < length (mthreads (mutex_run sched (mutex_init W m)))"
    "m_i (mthreads (mutex_run sched (mutex_init W m)) ! t) < m_end (mthreads (mutex_run sched (mutex_init W m)) ! t)"
  shows "m_i (mthreads (mutex_run sched (mutex_init W m)) ! t) < length (arr m)"
proof -
  have "mutex_inv (arr m) W (mutex_run sched (mutex_init W m))"
    by (intro mutex_run_inv mutex_init_inv)
  then have "mutex_wf (arr m) W (mutex_run sched (mutex_init W m))" by (simp add: mutex_inv_def)
  from mutex_reads_in_range[OF this assms] show ?thesis
    by (simp add: mutex_run_frame mutex_init_def)
qed

lemma atomic_run_reads_in_range:
  assumes "t < length (athreads (atomic_run sched (atomic_init W m)))"
    "a_i (athreads (atomic_run sched (atomic_init W m)) ! t) < a_end (athreads (atomic_run sched (atomic_init W m)) ! t)"
  shows "a_i (athreads (atomic_run sched (atomic_init W m)) ! t) < length (arr m)"
proof -
  have "atomic_inv (arr m) W (atomic_run sched (atomic_init W m))"
    by (intro atomic_run_inv atomic_init_inv)
  then have "atomic_wf (arr m) W (atomic_run sched (atomic_init W m))" by (simp add: atomic_inv_def)
  from atomic_reads_in_range[OF this assms] show ?thesis
    by (simp add: atomic_run_frame atomic_init_def)
qed

lemma last_start_le: "0 < W \<Longrightarrow> (W - 1) * (n div W) \<le> (n::nat)"
  using start_le_end[of "W - 1" W n] by (simp add: start_idx_def end_idx_def chunk_def)

subsection \<open>No addition on a plain \<^verbatim>\<open>long long\<close> leaves the signed range\<close>

lemma seg_sum_as_list: "seg_sum xs a b = sum_list (map contrib (map (nth xs) [a..<b]))"
  by (simp add: seg_sum_def interv_sum_list_conv_sum_set_nat o_def)

lemma seg_sum_int_as_list: "seg_sum_int xs a b = sum_list (map contrib_int (map (nth xs) [a..<b]))"
  by (simp add: seg_sum_int_def interv_sum_list_conv_sum_set_nat o_def)

lemma seg_sum_exact:
  assumes "b - a < 2 ^ 32"
  shows "sint (seg_sum xs a b) = seg_sum_int xs a b"
    "- (2 ^ 31 * int (b - a)) \<le> seg_sum_int xs a b" "seg_sum_int xs a b \<le> 2 ^ 31 * int (b - a)"
proof -
  let ?ys = "map (nth xs) [a..<b]"
  have len: "length ?ys = b - a" by simp
  show "sint (seg_sum xs a b) = seg_sum_int xs a b"
    unfolding seg_sum_as_list seg_sum_int_as_list
    by (rule sint_sum_list_contrib) (use assms in simp)
  from sum_list_contrib_int_bounds[of ?ys]
  show "- (2 ^ 31 * int (b - a)) \<le> seg_sum_int xs a b" "seg_sum_int xs a b \<le> 2 ^ 31 * int (b - a)"
    unfolding seg_sum_int_as_list len by simp_all
qed

lemma segs_exact:
  assumes "sum_list (map (\<lambda>(a, b). b - a) segs) < 2 ^ 32"
  shows "sint (sum_list (map (\<lambda>(a, b). seg_sum xs a b) segs))
      = sum_list (map (\<lambda>(a, b). seg_sum_int xs a b) segs) \<and>
    - (2 ^ 31 * int (sum_list (map (\<lambda>(a, b). b - a) segs)))
      \<le> sum_list (map (\<lambda>(a, b). seg_sum_int xs a b) segs) \<and>
    sum_list (map (\<lambda>(a, b). seg_sum_int xs a b) segs)
      \<le> 2 ^ 31 * int (sum_list (map (\<lambda>(a, b). b - a) segs))"
  using assms
proof (induction segs)
  case Nil
  then show ?case by simp
next
  case (Cons p segs)
  obtain a b where p: "p = (a, b)" by (cases p)
  let ?T = "sum_list (map (\<lambda>(a, b). b - a) segs)"
  let ?W = "sum_list (map (\<lambda>(a, b). seg_sum xs a b) segs)"
  let ?I = "sum_list (map (\<lambda>(a, b). seg_sum_int xs a b) segs)"
  from Cons.prems p have tot: "(b - a) + ?T < 2 ^ 32" by simp
  then have "?T < 2 ^ 32" and ba: "b - a < 2 ^ 32" by simp_all
  with Cons.IH have ih: "sint ?W = ?I" and lo: "- (2 ^ 31 * int ?T) \<le> ?I"
    and hi: "?I \<le> 2 ^ 31 * int ?T" by simp_all
  note s = seg_sum_exact[OF ba, of xs]
  from tot have "int (b - a) + int ?T \<le> 2 ^ 32 - 1" by simp
  then have "2 ^ 31 * (int (b - a) + int ?T) \<le> 2 ^ 31 * (2 ^ 32 - 1)"
    by (intro mult_left_mono) simp_all
  then have bound: "2 ^ 31 * int (b - a) + 2 ^ 31 * int ?T < 2 ^ 63"
    by (simp add: algebra_simps)
  have "sint (seg_sum xs a b + ?W) = sint (seg_sum xs a b) + sint ?W"
    by (rule sint_add_64) (use s ih lo hi bound in simp_all)
  then have 1: "sint (seg_sum xs a b + ?W) = seg_sum_int xs a b + ?I" by (simp add: s(1) ih)
  show ?case using 1 s(2,3) lo hi by (simp add: p algebra_simps)
qed

lemma chunk_lengths_prefix:
  "Suc k \<le> W \<Longrightarrow> (\<Sum>t = 0..<Suc k. end_idx n W t - start_idx n W t) = end_idx n W k"
proof (induction k)
  case 0
  then show ?case by (simp add: start_0)
next
  case (Suc k)
  then have ih: "(\<Sum>t = 0..<Suc k. end_idx n W t - start_idx n W t) = end_idx n W k" by simp
  from Suc.prems have e: "end_idx n W k = start_idx n W (Suc k)" by (simp add: end_eq_start_Suc)
  have le: "start_idx n W (Suc k) \<le> end_idx n W (Suc k)" using Suc.prems by (simp add: start_le_end)
  have "(\<Sum>t = 0..<Suc (Suc k). end_idx n W t - start_idx n W t)
      = start_idx n W (Suc k) + (end_idx n W (Suc k) - start_idx n W (Suc k))"
    using ih e by simp
  then show ?case using le by simp
qed

lemma chunk_lengths: "(\<Sum>t = 0..<W. end_idx n W t - start_idx n W t) \<le> n"
proof (cases W)
  case 0
  then show ?thesis by simp
next
  case (Suc k)
  have "end_idx n W k = n" using Suc by (simp add: end_idx_def)
  then show ?thesis using chunk_lengths_prefix[of k W n] Suc by simp
qed

lemma mutex_counted_le:
  assumes wf: "mutex_wf xs W s"
  shows "sum_list (map (\<lambda>w. m_i w + m_added (m_pc w) - m_start w) (mthreads s)) \<le> length xs"
proof -
  have len: "length (mthreads s) = W" using wf by (simp add: mutex_wf_def)
  have le: "m_i (mthreads s ! t) + m_added (m_pc (mthreads s ! t)) - m_start (mthreads s ! t)
      \<le> end_idx (length xs) W t - start_idx (length xs) W t" if "t < W" for t
  proof -
    from that len have t: "t < length (mthreads s)" by simp
    note ok = mutex_wf_worker[OF wf t, unfolded mutex_worker_ok_def]
    show ?thesis using ok by (cases "m_pc (mthreads s ! t)") auto
  qed
  have "sum_list (map (\<lambda>w. m_i w + m_added (m_pc w) - m_start w) (mthreads s))
      = (\<Sum>t = 0..<W. m_i (mthreads s ! t) + m_added (m_pc (mthreads s ! t)) - m_start (mthreads s ! t))"
    by (simp add: sum_list_map_nth len)
  also have "\<dots> \<le> (\<Sum>t = 0..<W. end_idx (length xs) W t - start_idx (length xs) W t)"
    by (rule sum_mono) (simp add: le)
  also have "\<dots> \<le> length xs" by (rule chunk_lengths)
  finally show ?thesis .
qed

lemma mutex_sum_exact:
  assumes inv: "mutex_inv xs W s" and n: "length xs < 2 ^ 31"
  shows "sint (sum_even (mm s)) =
    sum_list (map (\<lambda>w. seg_sum_int xs (m_start w) (m_i w + m_added (m_pc w))) (mthreads s))"
proof -
  from inv have wf: "mutex_wf xs W s" and sm: "mutex_sum_ok xs s" by (simp_all add: mutex_inv_def)
  let ?segs = "map (\<lambda>w. (m_start w, m_i w + m_added (m_pc w))) (mthreads s)"
  have "sum_list (map (\<lambda>(a, b). b - a) ?segs) \<le> length xs"
    using mutex_counted_le[OF wf] by (simp add: o_def)
  then have "sum_list (map (\<lambda>(a, b). b - a) ?segs) < 2 ^ 32" using n by simp
  from segs_exact[OF this, of xs, THEN conjunct1] sm show ?thesis
    by (simp add: mutex_sum_ok_def o_def)
qed

lemma mutex_store_exact:
  assumes inv: "mutex_inv xs W s" and n: "length xs < 2 ^ 31"
    and t: "t < length (mthreads s)" and pc: "m_pc (mthreads s ! t) = M_store_sum"
  shows "sint (m_tmp (mthreads s ! t) + scast (m_x (mthreads s ! t)))
    = sint (m_tmp (mthreads s ! t)) + sint (m_x (mthreads s ! t))"
proof -
  let ?w = "mthreads s ! t"
  let ?h = "\<lambda>w. seg_sum_int xs (m_start w) (m_i w + m_added (m_pc w))"
  from inv have wf: "mutex_wf xs W s" and sm: "mutex_sum_ok xs s" by (simp_all add: mutex_inv_def)
  note ok = mutex_wf_worker[OF wf t, unfolded mutex_worker_ok_def]
  have tmp: "m_tmp ?w = sum_even (mm s)" using sm t pc by (rule mutex_sum_tmp)
  have st: "mutex_step t s = \<lparr>mm = (mm s)\<lparr>sum_even := m_tmp ?w + scast (m_x ?w)\<rparr>,
      mthreads = (mthreads s)[t := ?w\<lparr>m_pc := M_cmp_max\<rparr>]\<rparr>"
    using t pc by (simp add: mutex_step_def Let_def)
  have "sint (sum_even (mm (mutex_step t s))) = sum_list (map ?h (mthreads (mutex_step t s)))"
    using mutex_step_inv[OF inv] n by (rule mutex_sum_exact)
  then have "sint (m_tmp ?w + scast (m_x ?w))
      = sum_list (map ?h (mthreads s)) - ?h ?w + ?h (?w\<lparr>m_pc := M_cmp_max\<rparr>)"
    using t by (simp add: st sum_list_map_update)
  also have "sum_list (map ?h (mthreads s)) = sint (m_tmp ?w)"
    using mutex_sum_exact[OF inv n] by (simp add: tmp)
  also have "?h (?w\<lparr>m_pc := M_cmp_max\<rparr>) = ?h ?w + sint (m_x ?w)"
    using ok pc by (auto simp: seg_sum_int_def contrib_int_def)
  finally show ?thesis by simp
qed

lemma sequential_add_exact:
  assumes "length (ys @ [x]) < 2 ^ 31" "sum_even m = 0"
  shows "sint (sum_even (foldl seq_body m ys) + scast x)
    = sint (sum_even (foldl seq_body m ys)) + sint x"
proof -
  from assms(1) have l: "length ys < 2 ^ 32" by simp
  have b: "- (2 ^ 31 * int (length ys)) \<le> sum_list (map contrib_int ys)"
    "sum_list (map contrib_int ys) \<le> 2 ^ 31 * int (length ys)"
    using sum_list_contrib_int_bounds[of ys] by simp_all
  from assms(1) have "int (length ys) < 2 ^ 31" by simp
  then have "2 ^ 31 * int (length ys) \<le> 2 ^ 31 * 2 ^ 31" by (intro mult_left_mono) simp_all
  then have c: "2 ^ 31 * int (length ys) \<le> 2 ^ 62" by simp
  have s: "sint (sum_even (foldl seq_body m ys)) = sum_list (map contrib_int ys)"
    using sint_sum_list_contrib[OF l] by (simp add: foldl_seq_body_sum assms(2))
  have "sint (sum_even (foldl seq_body m ys) + scast x)
      = sint (sum_even (foldl seq_body m ys)) + sint (scast x :: int64)"
    by (rule sint_add_64) (use b c sint32_bounds[of x] in \<open>simp_all add: s sint_scast_32_64\<close>)
  then show ?thesis by (simp add: sint_scast_32_64)
qed

section \<open>The claims\<close>

text \<open>
  C1. For every input and every number of threads \<open>W \<ge> 1\<close>, under every interleaving of
  the threads that lets the joins return, the lock-based and the lock-free sections end
  with the sum and the maximum of the sequential section, so the three printed results
  are equal; and every interleaving, however it began, can be continued until the joins
  return, so the result is a function of the input alone.
\<close>

theorem strategies_agree:
  assumes "0 < W"
  shows "(\<exists>sm sa r. main W sm sa xs = Some r) \<and>
    (\<forall>sm sa r. main W sm sa xs = Some r \<longrightarrow>
       result_seq r = result_mutex r \<and> result_mutex r = result_atomic r \<and>
       max_seq r = max_mutex r \<and> max_mutex r = max_atomic r) \<and>
    (\<forall>sm m m2. lock_based W sm m = Some m2 \<longrightarrow>
       sum_even m2 = sum_even (sequential m) \<and> max_even m2 = max_even (sequential m)) \<and>
    (\<forall>sa m m3. lock_free W sa m = Some m3 \<longrightarrow>
       atomic_sum m3 = sum_even (sequential m) \<and> atomic_max m3 = max_even (sequential m)) \<and>
    (\<forall>p m. \<exists>q m2. lock_based W (p @ q) m = Some m2) \<and>
    (\<forall>p m. \<exists>q m3. lock_free W (p @ q) m = Some m3)"
proof (intro conjI allI impI)
  show "\<exists>sm sa r. main W sm sa xs = Some r" by (rule main_completes)
next
  fix sm sa r assume r: "main W sm sa xs = Some r"
  note rep = main_report[OF r assms]
  show "result_seq r = result_mutex r" "result_mutex r = result_atomic r"
    "max_seq r = max_mutex r" "max_mutex r = max_atomic r"
    by (simp_all add: rep(3-6))
next
  fix sm m m2 assume "lock_based W sm m = Some m2"
  from lock_based_eq_sequential(1,2)[OF this assms]
  show "sum_even m2 = sum_even (sequential m)" "max_even m2 = max_even (sequential m)" .
next
  fix sa m m3 assume "lock_free W sa m = Some m3"
  from lock_free_eq_sequential(1,2)[OF this assms]
  show "atomic_sum m3 = sum_even (sequential m)" "atomic_max m3 = max_even (sequential m)" .
next
  fix p m show "\<exists>q m2. lock_based W (p @ q) m = Some m2" by (rule lock_based_extends)
next
  fix p m show "\<exists>q m3. lock_free W (p @ q) m = Some m3" by (rule lock_free_extends)
qed

theorem strategies_agree_witness:
  "0 < (2::nat) \<and>
   main 2 ([0, 1, 0, 1, 0, 1, 0, 1, 0, 0, 0, 0] @ replicate 14 1)
     [(0, False), (1, False), (0, False), (1, False), (0, False), (1, False), (0, False),
      (1, False), (1, False), (0, False), (1, False), (1, False), (1, False), (1, False),
      (1, True), (1, False)] [2, 3, 4, 5, 6]
     = Some \<lparr>result_seq = 0, max_seq = 6, result_mutex = 0, max_mutex = 6,
         result_atomic = 0, max_atomic = 6, final_arr = [2, 3, 4, 5, 6]\<rparr> \<and>
   result_seq \<lparr>result_seq = 0, max_seq = 6, result_mutex = 0, max_mutex = 6,
         result_atomic = 0, max_atomic = 6, final_arr = [2, 3, 4, 5, 6]\<rparr>
     = result_atomic \<lparr>result_seq = 0, max_seq = 6, result_mutex = 0, max_mutex = 6,
         result_atomic = 0, max_atomic = 6, final_arr = [2, 3, 4, 5, 6 :: int32]\<rparr>"
proof -
  have e: "main 2 ([0, 1, 0, 1, 0, 1, 0, 1, 0, 0, 0, 0] @ replicate 14 1)
     [(0, False), (1, False), (0, False), (1, False), (0, False), (1, False), (0, False),
      (1, False), (1, False), (0, False), (1, False), (1, False), (1, False), (1, False),
      (1, True), (1, False)] [2, 3, 4, 5, 6]
     = Some \<lparr>result_seq = 0, max_seq = 6, result_mutex = 0, max_mutex = 6,
         result_atomic = 0, max_atomic = 6, final_arr = [2, 3, 4, 5, 6]\<rparr>"
    by code_simp
  have W: "0 < (2::nat)" by simp
  note a = strategies_agree[OF W, of "[2, 3, 4, 5, 6]", THEN conjunct2, THEN conjunct1,
      rule_format, OF e]
  from a have "result_seq \<lparr>result_seq = 0, max_seq = 6, result_mutex = 0, max_mutex = 6,
         result_atomic = 0, max_atomic = 6, final_arr = [2, 3, 4, 5, 6]\<rparr>
     = result_atomic \<lparr>result_seq = 0, max_seq = 6, result_mutex = 0, max_mutex = 6,
         result_atomic = 0, max_atomic = 6, final_arr = [2, 3, 4, 5, 6 :: int32]\<rparr>"
    by (elim conjE) (rule trans)
  with e W show ?thesis by (intro conjI)
qed

text \<open>
  C2. For every array size \<open>n\<close> and every number of threads \<open>W \<ge> 1\<close>, the \<open>W\<close> ranges
  from \<^verbatim>\<open>start_idx\<close> up to, not including, \<^verbatim>\<open>end_idx\<close> are pairwise disjoint and their
  union is the set of all indices below \<open>n\<close>.
\<close>

theorem chunks_partition:
  assumes "0 < W"
  shows "(\<Union>t<W. {start_idx n W t ..< end_idx n W t}) = {0 ..< n} \<and>
    (\<forall>t<W. \<forall>t'<W. t \<noteq> t' \<longrightarrow>
       {start_idx n W t ..< end_idx n W t} \<inter> {start_idx n W t' ..< end_idx n W t'} = {})"
proof (intro conjI allI impI)
  show "(\<Union>t<W. {start_idx n W t ..< end_idx n W t}) = {0 ..< n}"
    using assms by (rule chunks_cover)
next
  fix t t' assume "t < W" "t' < W" "t \<noteq> t'"
  then show "{start_idx n W t ..< end_idx n W t} \<inter> {start_idx n W t' ..< end_idx n W t'} = {}"
    by (rule chunks_disjoint)
qed

theorem chunks_partition_witness:
  "0 < (4::nat) \<and>
   (\<Union>t<4. {start_idx 10 4 t ..< end_idx 10 4 t}) = {0 ..< 10} \<and>
   {start_idx 10 4 0 ..< end_idx 10 4 0} \<inter> {start_idx 10 4 3 ..< end_idx 10 4 3} = {}"
proof -
  have W: "0 < (4::nat)" by simp
  note p = chunks_partition[OF W, of 10]
  have d: "{start_idx 10 4 0 ..< end_idx 10 4 0} \<inter> {start_idx 10 4 3 ..< end_idx 10 4 3} = {}"
    using p[THEN conjunct2, rule_format, of 0 3] by simp
  show ?thesis using W p[THEN conjunct1] d by (intro conjI)
qed

text \<open>
  C3. When no element of the input is even, the sequential section ends with sum \<open>0\<close>
  and maximum \<open>-1\<close>, so do the lock-based and the lock-free section under every
  interleaving that lets the joins return, and each of the three printed results is
  \<open>2 * (-1) - 0 = -2\<close>.
\<close>

theorem no_even_sentinel:
  assumes "\<forall>x\<in>set xs. \<not> is_even x" "0 < W"
  shows "sum_even (sequential (initial xs)) = 0 \<and> max_even (sequential (initial xs)) = - 1 \<and>
    (\<forall>sm m m2. arr m = xs \<longrightarrow> lock_based W sm m = Some m2 \<longrightarrow>
       sum_even m2 = 0 \<and> max_even m2 = - 1) \<and>
    (\<forall>sa m m3. arr m = xs \<longrightarrow> lock_free W sa m = Some m3 \<longrightarrow>
       atomic_sum m3 = 0 \<and> atomic_max m3 = - 1) \<and>
    combine (- 1) 0 = - 2 \<and>
    (\<forall>sm sa r. main W sm sa xs = Some r \<longrightarrow>
       result_seq r = - 2 \<and> max_seq r = - 1 \<and> result_mutex r = - 2 \<and> max_mutex r = - 1 \<and>
       result_atomic r = - 2 \<and> max_atomic r = - 1)"
proof -
  have i: "arr (initial xs) = xs" by (simp add: initial_def)
  have s: "sum_even (sequential m) = 0" "max_even (sequential m) = - 1" if "arr m = xs" for m
    using sequential_no_even[of m] that assms(1) by simp_all
  have c: "combine (- 1) 0 = - 2" by (simp add: combine_def)
  have 1: "sum_even m2 = 0 \<and> max_even m2 = - 1"
    if "arr m = xs" "lock_based W sm m = Some m2" for sm m m2
    using lock_based_eq_sequential(1,2)[OF that(2) assms(2)] s[OF that(1)] by simp
  have 2: "atomic_sum m3 = 0 \<and> atomic_max m3 = - 1"
    if "arr m = xs" "lock_free W sa m = Some m3" for sa m m3
    using lock_free_eq_sequential(1,2)[OF that(2) assms(2)] s[OF that(1)] by simp
  have 3: "result_seq r = - 2 \<and> max_seq r = - 1 \<and> result_mutex r = - 2 \<and> max_mutex r = - 1 \<and>
       result_atomic r = - 2 \<and> max_atomic r = - 1" if "main W sm sa xs = Some r" for sm sa r
    using main_report[OF that assms(2)] s[OF i] c by simp
  show ?thesis using s[OF i] c 1 2 3 by blast
qed

theorem no_even_sentinel_witness:
  "list_all (\<lambda>x. \<not> is_even x) [1, 3, 5, 7] \<and> 0 < (32::nat) \<and>
   main 32 (replicate 4 31) (replicate 4 (31, False)) [1, 3, 5, 7]
     = Some \<lparr>result_seq = - 2, max_seq = - 1, result_mutex = - 2, max_mutex = - 1,
         result_atomic = - 2, max_atomic = - 1, final_arr = [1, 3, 5, 7]\<rparr> \<and>
   sum_even (sequential (initial [1, 3, 5, 7])) = 0 \<and>
   max_even (sequential (initial [1, 3, 5, 7])) = - 1"
proof -
  have odd: "list_all (\<lambda>x. \<not> is_even x) [1, 3, 5, 7]" by code_simp
  then have h: "\<forall>x\<in>set [1, 3, 5, 7]. \<not> is_even x" by (simp only: list_all_iff)
  have W: "0 < (32::nat)" by simp
  have e: "main 32 (replicate 4 31) (replicate 4 (31, False)) [1, 3, 5, 7]
     = Some \<lparr>result_seq = - 2, max_seq = - 1, result_mutex = - 2, max_mutex = - 1,
         result_atomic = - 2, max_atomic = - 1, final_arr = [1, 3, 5, 7]\<rparr>"
    by code_simp
  note t = no_even_sentinel[OF h W]
  show ?thesis using odd W e t[THEN conjunct1] t[THEN conjunct2, THEN conjunct1]
    by (intro conjI)
qed

text \<open>
  C4, as the specification states it: after the sequential pass the maximum is the true
  maximum even element, or \<open>-1\<close> when no element is even. It fails for the input
  \<open>[-4]\<close>: the only even element is \<open>-4\<close>, which is not greater than the initial \<open>-1\<close>,
  so the maximum stays \<open>-1\<close>.
\<close>

theorem sequential_max_counterexample:
  "sint (max_even (sequential (initial [- 4]))) \<noteq> claimed_max [- 4]"
  by code_simp

text \<open>
  C4, amended. For every input whose length fits an \<^verbatim>\<open>int\<close>, the sequential pass ends
  with the exact sum of the even elements, and with the largest of \<open>-1\<close> and the even
  elements as maximum; this is the true maximum even element, or \<open>-1\<close> when no element
  is even, whenever no even element is negative.
\<close>

theorem sequential_sum_max:
  assumes "length xs < 2 ^ 31"
  shows "sint (sum_even (sequential (initial xs))) = even_sum xs \<and>
    sint (max_even (sequential (initial xs))) = Max (insert (- 1) (sint ` set (filter is_even xs))) \<and>
    ((\<forall>x\<in>set xs. is_even x \<longrightarrow> 0 \<le> sint x) \<longrightarrow>
       sint (max_even (sequential (initial xs))) = claimed_max xs)"
proof -
  have i: "arr (initial xs) = xs" by (simp add: initial_def)
  have 1: "sint (sum_even (sequential (initial xs))) = even_sum xs"
    using sint_sequential_sum[of "initial xs"] assms by (simp add: i)
  have 2: "sint (max_even (sequential (initial xs))) =
      Max (insert (- 1) (sint ` set (filter is_even xs)))"
    using max_spec_Max[OF sequential_max[of "initial xs"]] by (simp only: i)
  have 3: "sint (max_even (sequential (initial xs))) = claimed_max xs"
    if "\<forall>x\<in>set xs. is_even x \<longrightarrow> 0 \<le> sint x"
    using claimed_max_nonneg[OF that] 2 by simp
  show ?thesis using 1 2 3 by blast
qed

theorem sequential_sum_max_witness:
  "length [2, 3, 4, 5, 6 :: int32] < 2 ^ 31 \<and>
   list_all (\<lambda>x. is_even x \<longrightarrow> 0 \<le> sint x) [2, 3, 4, 5, 6 :: int32] \<and>
   even_sum [2, 3, 4, 5, 6] = 12 \<and> claimed_max [2, 3, 4, 5, 6] = 6 \<and>
   sint (sum_even (sequential (initial [2, 3, 4, 5, 6]))) = 12 \<and>
   sint (max_even (sequential (initial [2, 3, 4, 5, 6]))) = 6"
proof -
  have l: "length [2, 3, 4, 5, 6 :: int32] < 2 ^ 31" by simp
  have nn: "list_all (\<lambda>x. is_even x \<longrightarrow> 0 \<le> sint x) [2, 3, 4, 5, 6 :: int32]" by code_simp
  then have h: "\<forall>x\<in>set [2, 3, 4, 5, 6 :: int32]. is_even x \<longrightarrow> 0 \<le> sint x"
    by (simp only: list_all_iff)
  have es: "even_sum [2, 3, 4, 5, 6] = 12" by code_simp
  have cm: "claimed_max [2, 3, 4, 5, 6] = 6" by code_simp
  note t = sequential_sum_max[OF l]
  have s: "sint (sum_even (sequential (initial [2, 3, 4, 5, 6]))) = 12"
    using t[THEN conjunct1] es by simp
  have m: "sint (max_even (sequential (initial [2, 3, 4, 5, 6]))) = 6"
    using t[THEN conjunct2, THEN conjunct2, THEN mp, OF h] cm by simp
  show ?thesis using l nn es cm s m by (intro conjI)
qed

text \<open>
  C5. For every input whose length fits an \<^verbatim>\<open>int\<close>, the result \<^verbatim>\<open>2LL * max - sum\<close>
  computed in 64 bits from the accumulators of the sequential section, and of the
  lock-based and the lock-free section after their joins, is the mathematical value of
  \<open>2 * max - sum\<close>: neither the product nor the difference leaves the signed range.
\<close>

theorem combine_exact:
  assumes "length xs < 2 ^ 31" "0 < W"
  shows "sint (combine (max_even (sequential (initial xs))) (sum_even (sequential (initial xs))))
      = 2 * sint (max_even (sequential (initial xs))) - sint (sum_even (sequential (initial xs))) \<and>
    (\<forall>sm m m2. arr m = xs \<longrightarrow> lock_based W sm m = Some m2 \<longrightarrow>
       sint (combine (max_even m2) (sum_even m2)) = 2 * sint (max_even m2) - sint (sum_even m2)) \<and>
    (\<forall>sa m m3. arr m = xs \<longrightarrow> lock_free W sa m = Some m3 \<longrightarrow>
       sint (combine (atomic_max m3) (atomic_sum m3))
         = 2 * sint (atomic_max m3) - sint (atomic_sum m3))"
proof -
  have b: "- (2 ^ 62) \<le> sint (sum_even (sequential m))" "sint (sum_even (sequential m)) \<le> 2 ^ 62"
    if "arr m = xs" for m
    using sint_sequential_sum[of m] even_sum_bounds[OF assms(1)] assms(1) that by simp_all
  have c: "sint (combine k (sum_even (sequential m))) = 2 * sint k - sint (sum_even (sequential m))"
    if "arr m = xs" for m k
    using b[OF that] by (rule combine_sint)
  have i: "arr (initial xs) = xs" by (simp add: initial_def)
  have 1: "sint (combine (max_even m2) (sum_even m2)) = 2 * sint (max_even m2) - sint (sum_even m2)"
    if "arr m = xs" "lock_based W sm m = Some m2" for sm m m2
    using c[OF that(1)] lock_based_eq_sequential(1)[OF that(2) assms(2)] by simp
  have 2: "sint (combine (atomic_max m3) (atomic_sum m3))
         = 2 * sint (atomic_max m3) - sint (atomic_sum m3)"
    if "arr m = xs" "lock_free W sa m = Some m3" for sa m m3
    using c[OF that(1)] lock_free_eq_sequential(1)[OF that(2) assms(2)] by simp
  show ?thesis using c[OF i] 1 2 by blast
qed

theorem combine_exact_witness:
  "length [10000, 9998 :: int32] < 2 ^ 31 \<and> 0 < (1::nat) \<and>
   sint (combine (max_even (sequential (initial [10000, 9998])))
      (sum_even (sequential (initial [10000, 9998]))))
    = 2 * sint (max_even (sequential (initial [10000, 9998])))
      - sint (sum_even (sequential (initial [10000, 9998])))"
proof -
  have l: "length [10000, 9998 :: int32] < 2 ^ 31" by simp
  have W: "0 < (1::nat)" by simp
  show ?thesis using l W combine_exact[OF l W, THEN conjunct1] by (intro conjI)
qed

text \<open>
  C6. In the lock-free section no step of any thread lowers \<^verbatim>\<open>atomic_max\<close>, so it
  never decreases along an execution. A step that changes it is a successful
  \<^verbatim>\<open>compare_exchange_weak\<close>, which replaces the value the thread expected by the
  thread's strictly greater \<^verbatim>\<open>x\<close>. A thread at the loop head whose \<^verbatim>\<open>x\<close> is not
  greater than its \<^verbatim>\<open>current_max\<close> attempts no exchange: it leaves the shared memory
  as it is and goes on to the next element.
\<close>

theorem cas_monotone:
  "atomic_max (am s) \<le>s atomic_max (am (atomic_step e s)) \<and>
   atomic_max (am s) \<le>s atomic_max (am (atomic_run sched s)) \<and>
   (atomic_max (am (atomic_step e s)) \<noteq> atomic_max (am s) \<longrightarrow>
      atomic_max (am s) <s atomic_max (am (atomic_step e s)) \<and>
      fst e < length (athreads s) \<and> a_pc (athreads s ! fst e) = A_cas \<and>
      atomic_max (am (atomic_step e s)) = a_x (athreads s ! fst e) \<and>
      atomic_max (am s) = a_current_max (athreads s ! fst e)) \<and>
   (t < length (athreads s) \<and> a_pc (athreads s ! t) = A_cas \<and>
    \<not> a_current_max (athreads s ! t) <s a_x (athreads s ! t) \<longrightarrow>
      atomic_step (t, b) s =
        s\<lparr>athreads := (athreads s)[t := (athreads s ! t)
           \<lparr>a_i := a_i (athreads s ! t) + 1, a_pc := A_for\<rparr>]\<rparr>)"
  using atomic_step_max_mono[of s e] atomic_run_max_mono[of s sched]
    atomic_step_max_change[of e s] atomic_step_skip[of t s b]
  by blast

theorem cas_monotone_witness:
  "atomic_max (am (atomic_run [(0, False), (0, False), (0, False)] (atomic_init 1 (initial [2])))) = - 1 \<and>
   atomic_max (am (atomic_step (0, False)
     (atomic_run [(0, False), (0, False), (0, False)] (atomic_init 1 (initial [2]))))) = 2 \<and>
   atomic_max (am (atomic_run [(0, False), (0, False), (0, False)] (atomic_init 1 (initial [2]))))
     <s atomic_max (am (atomic_step (0, False)
       (atomic_run [(0, False), (0, False), (0, False)] (atomic_init 1 (initial [2])))))"
proof -
  let ?s = "atomic_run [(0, False), (0, False), (0, False)] (atomic_init 1 (initial [2]))"
  have a: "atomic_max (am ?s) = - 1" by code_simp
  have b: "atomic_max (am (atomic_step (0, False) ?s)) = 2" by code_simp
  have ne: "atomic_max (am (atomic_step (0, False) ?s)) \<noteq> atomic_max (am ?s)"
    unfolding a b by simp
  note t = cas_monotone[of ?s "(0, False)" "[]" 0 False]
  from t[THEN conjunct2, THEN conjunct2, THEN conjunct1, THEN mp, OF ne, THEN conjunct1]
  have lt: "atomic_max (am ?s) <s atomic_max (am (atomic_step (0, False) ?s))" .
  show ?thesis using a b lt by (intro conjI)
qed

text \<open>
  C7. For the input \<open>[2, 3, 4, 5, 6]\<close> the even elements are \<open>2\<close>, \<open>4\<close> and \<open>6\<close>; the
  sequential section, and for every number of threads \<open>W \<ge> 1\<close> the lock-based and the
  lock-free section under every interleaving that lets the joins return, end with sum
  \<open>12\<close> and maximum \<open>6\<close>, and each of the three versions reports the result \<open>0\<close> and
  the maximum \<open>6\<close>.
\<close>

theorem scenario_evens_2_4_6:
  assumes "0 < W"
  shows "filter is_even [2, 3, 4, 5, 6] = [2, 4, 6] \<and>
    sum_even (sequential (initial [2, 3, 4, 5, 6])) = 12 \<and>
    max_even (sequential (initial [2, 3, 4, 5, 6])) = 6 \<and>
    combine 6 12 = 0 \<and>
    (\<forall>sm m m2. arr m = [2, 3, 4, 5, 6] \<longrightarrow> lock_based W sm m = Some m2 \<longrightarrow>
       sum_even m2 = 12 \<and> max_even m2 = 6) \<and>
    (\<forall>sa m m3. arr m = [2, 3, 4, 5, 6] \<longrightarrow> lock_free W sa m = Some m3 \<longrightarrow>
       atomic_sum m3 = 12 \<and> atomic_max m3 = 6) \<and>
    (\<exists>sm sa r. main W sm sa [2, 3, 4, 5, 6] = Some r) \<and>
    (\<forall>sm sa r. main W sm sa [2, 3, 4, 5, 6] = Some r \<longrightarrow>
       result_seq r = 0 \<and> max_seq r = 6 \<and> result_mutex r = 0 \<and> max_mutex r = 6 \<and>
       result_atomic r = 0 \<and> max_atomic r = 6)"
proof -
  let ?xs = "[2, 3, 4, 5, 6] :: int32 list"
  have f: "filter is_even ?xs = [2, 4, 6]" by code_simp
  have s0: "sum_even (sequential (initial ?xs)) = 12" "max_even (sequential (initial ?xs)) = 6"
    by code_simp+
  have c: "combine 6 12 = 0" by code_simp
  have i: "arr (initial ?xs) = ?xs" by (simp add: initial_def)
  have s: "sum_even (sequential m) = 12" "max_even (sequential m) = 6" if "arr m = ?xs" for m
    using sequential_arr_only[of m "initial ?xs"] that s0 by (simp_all add: i)
  have 1: "sum_even m2 = 12 \<and> max_even m2 = 6"
    if "arr m = ?xs" "lock_based W sm m = Some m2" for sm m m2
    using lock_based_eq_sequential(1,2)[OF that(2) assms] s[OF that(1)] by simp
  have 2: "atomic_sum m3 = 12 \<and> atomic_max m3 = 6"
    if "arr m = ?xs" "lock_free W sa m = Some m3" for sa m m3
    using lock_free_eq_sequential(1,2)[OF that(2) assms] s[OF that(1)] by simp
  have 3: "result_seq r = 0 \<and> max_seq r = 6 \<and> result_mutex r = 0 \<and> max_mutex r = 6 \<and>
       result_atomic r = 0 \<and> max_atomic r = 6" if "main W sm sa ?xs = Some r" for sm sa r
    using main_report[OF that assms] s0 c by simp
  have 4: "\<exists>sm sa r. main W sm sa ?xs = Some r" by (rule main_completes)
  show ?thesis using f s0 c 1 2 3 4 by blast
qed

theorem scenario_evens_2_4_6_witness:
  "0 < (32::nat) \<and>
   main 32 (replicate 23 31) (replicate 14 (31, False)) [2, 3, 4, 5, 6]
     = Some \<lparr>result_seq = 0, max_seq = 6, result_mutex = 0, max_mutex = 6,
         result_atomic = 0, max_atomic = 6, final_arr = [2, 3, 4, 5, 6]\<rparr> \<and>
   sum_even (sequential (initial [2, 3, 4, 5, 6])) = 12 \<and>
   max_even (sequential (initial [2, 3, 4, 5, 6])) = 6"
proof -
  have W: "0 < (32::nat)" by simp
  have e: "main 32 (replicate 23 31) (replicate 14 (31, False)) [2, 3, 4, 5, 6]
     = Some \<lparr>result_seq = 0, max_seq = 6, result_mutex = 0, max_mutex = 6,
         result_atomic = 0, max_atomic = 6, final_arr = [2, 3, 4, 5, 6]\<rparr>"
    by code_simp
  note t = scenario_evens_2_4_6[OF W]
  show ?thesis
    using W e t[THEN conjunct2, THEN conjunct1] t[THEN conjunct2, THEN conjunct2, THEN conjunct1]
    by (intro conjI)
qed

text \<open>
  C8. For an array of one element and 32 threads, the threads 0 to 30 get the empty
  range from 0 to 0 and thread 31 gets the range from 0 to 1; for the input \<open>[8]\<close>
  every interleaving that lets the joins return makes each of the three versions report
  the result \<open>2 * 8 - 8 = 8\<close>, and such interleavings exist.
\<close>

theorem scenario_single_element:
  "(\<forall>t<31. start_idx 1 32 t = 0 \<and> end_idx 1 32 t = 0) \<and>
   start_idx 1 32 31 = 0 \<and> end_idx 1 32 31 = 1 \<and>
   (\<exists>sm sa r. main 32 sm sa [8] = Some r) \<and>
   (\<forall>sm sa r. main 32 sm sa [8] = Some r \<longrightarrow>
      result_seq r = 8 \<and> result_mutex r = 8 \<and> result_atomic r = 8 \<and>
      max_seq r = 8 \<and> max_mutex r = 8 \<and> max_atomic r = 8)"
proof -
  have W: "0 < (32::nat)" by simp
  have 1: "\<forall>t<31. start_idx 1 32 t = 0 \<and> end_idx 1 32 t = 0"
    by (simp add: start_idx_def end_idx_def chunk_def)
  have 2: "start_idx 1 32 31 = 0" "end_idx 1 32 31 = 1"
    by (simp_all add: start_idx_def end_idx_def chunk_def)
  have s0: "combine (max_even (sequential (initial [8]))) (sum_even (sequential (initial [8]))) = 8"
    "max_even (sequential (initial [8])) = 8" by code_simp+
  have 3: "result_seq r = 8 \<and> result_mutex r = 8 \<and> result_atomic r = 8 \<and>
      max_seq r = 8 \<and> max_mutex r = 8 \<and> max_atomic r = 8" if "main 32 sm sa [8] = Some r" for sm sa r
    using main_report[OF that W] s0 by simp
  have 4: "\<exists>sm sa r. main 32 sm sa [8] = Some r" by (rule main_completes)
  show ?thesis using 1 2 3 4 by blast
qed

theorem scenario_single_element_witness:
  "main 32 (replicate 7 31) (replicate 4 (31, False)) [8]
     = Some \<lparr>result_seq = 8, max_seq = 8, result_mutex = 8, max_mutex = 8,
         result_atomic = 8, max_atomic = 8, final_arr = [8]\<rparr> \<and>
   start_idx 1 32 17 = 0 \<and> end_idx 1 32 17 = 0 \<and>
   result_mutex \<lparr>result_seq = 8, max_seq = 8, result_mutex = 8, max_mutex = 8,
         result_atomic = 8, max_atomic = 8, final_arr = [8 :: int32]\<rparr> = 8"
proof -
  have e: "main 32 (replicate 7 31) (replicate 4 (31, False)) [8]
     = Some \<lparr>result_seq = 8, max_seq = 8, result_mutex = 8, max_mutex = 8,
         result_atomic = 8, max_atomic = 8, final_arr = [8]\<rparr>"
    by code_simp
  note t = scenario_single_element
  have c: "start_idx 1 32 17 = 0 \<and> end_idx 1 32 17 = 0"
    using t[THEN conjunct1, rule_format, of 17] by simp
  have r: "result_mutex \<lparr>result_seq = 8, max_seq = 8, result_mutex = 8, max_mutex = 8,
         result_atomic = 8, max_atomic = 8, final_arr = [8 :: int32]\<rparr> = 8"
    using t[THEN conjunct2, THEN conjunct2, THEN conjunct2, THEN conjunct2, rule_format, OF e]
    by (elim conjE)
  show ?thesis using e c r by (intro conjI) (elim conjE, assumption)+
qed

text \<open>
  C9. No section writes the array: the sequential loop, every step of a thread of the
  lock-based section and every step of a thread of the lock-free section leave it as it
  is, so under every interleaving the array after the three sections is the input.
\<close>

theorem input_never_modified:
  "arr (sequential m) = arr m \<and>
   arr (mm (mutex_step t s)) = arr (mm s) \<and>
   arr (mm (mutex_run sm (mutex_init W m))) = arr m \<and>
   arr (am (atomic_step e s')) = arr (am s') \<and>
   arr (am (atomic_run sa (atomic_init W m))) = arr m \<and>
   (\<forall>r. main W sm sa xs = Some r \<longrightarrow> final_arr r = xs)"
  by (simp add: sequential_frame mutex_step_frame mutex_run_frame atomic_step_frame
      atomic_run_frame mutex_init_def atomic_init_def main_final_arr)

theorem input_never_modified_witness:
  "main 2 ([0, 1, 0, 1, 0, 1, 0, 1, 0, 0, 0, 0] @ replicate 14 1)
     (replicate 5 (0, False) @ replicate 9 (1, False)) [2, 3, 4, 5, 6]
     = Some \<lparr>result_seq = 0, max_seq = 6, result_mutex = 0, max_mutex = 6,
         result_atomic = 0, max_atomic = 6, final_arr = [2, 3, 4, 5, 6]\<rparr> \<and>
   final_arr \<lparr>result_seq = 0, max_seq = 6, result_mutex = 0, max_mutex = 6,
         result_atomic = 0, max_atomic = 6, final_arr = [2, 3, 4, 5, 6 :: int32]\<rparr>
     = [2, 3, 4, 5, 6]"
proof -
  have e: "main 2 ([0, 1, 0, 1, 0, 1, 0, 1, 0, 0, 0, 0] @ replicate 14 1)
     (replicate 5 (0, False) @ replicate 9 (1, False)) [2, 3, 4, 5, 6]
     = Some \<lparr>result_seq = 0, max_seq = 6, result_mutex = 0, max_mutex = 6,
         result_atomic = 0, max_atomic = 6, final_arr = [2, 3, 4, 5, 6]\<rparr>"
    by code_simp
  note t = input_never_modified[where W = 2
      and sm = "[0, 1, 0, 1, 0, 1, 0, 1, 0, 0, 0, 0] @ replicate 14 1"
      and sa = "replicate 5 (0, False) @ replicate 9 (1, False)" and xs = "[2, 3, 4, 5, 6]"]
  note f = t[THEN conjunct2, THEN conjunct2, THEN conjunct2, THEN conjunct2, THEN conjunct2,
      rule_format, OF e]
  show ?thesis using e f by (intro conjI)
qed

text \<open>
  C10. For every array size \<open>n\<close> and every number of threads \<open>W \<ge> 1\<close>, each thread's
  range satisfies \<^verbatim>\<open>start_idx\<close> \<open>\<le>\<close> \<^verbatim>\<open>end_idx\<close> \<open>\<le> n\<close> as computed, with no clamping; in
  particular the start \<open>(W - 1) * (n div W)\<close> of the last thread is at most \<open>n\<close>. In
  every state of every execution of the lock-based and of the lock-free section, a
  thread whose loop condition \<^verbatim>\<open>i < end_idx\<close> holds has \<open>i\<close> below the array size, so
  every read \<^verbatim>\<open>arr[i]\<close> is in bounds.
\<close>

theorem chunk_bounds:
  assumes "0 < W"
  shows "(\<forall>t<W. start_idx n W t \<le> end_idx n W t \<and> end_idx n W t \<le> n) \<and>
    (W - 1) * (n div W) \<le> n \<and>
    (\<forall>sched m t. t < length (mthreads (mutex_run sched (mutex_init W m))) \<longrightarrow>
       m_i (mthreads (mutex_run sched (mutex_init W m)) ! t)
         < m_end (mthreads (mutex_run sched (mutex_init W m)) ! t) \<longrightarrow>
       m_i (mthreads (mutex_run sched (mutex_init W m)) ! t) < length (arr m)) \<and>
    (\<forall>sched m t. t < length (athreads (atomic_run sched (atomic_init W m))) \<longrightarrow>
       a_i (athreads (atomic_run sched (atomic_init W m)) ! t)
         < a_end (athreads (atomic_run sched (atomic_init W m)) ! t) \<longrightarrow>
       a_i (athreads (atomic_run sched (atomic_init W m)) ! t) < length (arr m))"
proof (intro conjI allI impI)
  fix t assume "t < W"
  then show "start_idx n W t \<le> end_idx n W t" "end_idx n W t \<le> n"
    by (rule start_le_end, rule end_le_n)
next
  show "(W - 1) * (n div W) \<le> n" using assms by (rule last_start_le)
next
  fix sched m t
  assume "t < length (mthreads (mutex_run sched (mutex_init W m)))"
    "m_i (mthreads (mutex_run sched (mutex_init W m)) ! t)
       < m_end (mthreads (mutex_run sched (mutex_init W m)) ! t)"
  then show "m_i (mthreads (mutex_run sched (mutex_init W m)) ! t) < length (arr m)"
    by (rule mutex_run_reads_in_range)
next
  fix sched m t
  assume "t < length (athreads (atomic_run sched (atomic_init W m)))"
    "a_i (athreads (atomic_run sched (atomic_init W m)) ! t)
       < a_end (athreads (atomic_run sched (atomic_init W m)) ! t)"
  then show "a_i (athreads (atomic_run sched (atomic_init W m)) ! t) < length (arr m)"
    by (rule atomic_run_reads_in_range)
qed

theorem chunk_bounds_witness:
  "0 < (32::nat) \<and> start_idx 1 32 31 \<le> end_idx 1 32 31 \<and> end_idx 1 32 31 \<le> 1 \<and>
   (32 - 1) * (1 div 32) \<le> (1::nat)"
proof -
  have W: "0 < (32::nat)" by simp
  note t = chunk_bounds[OF W, of 1]
  have a: "start_idx 1 32 31 \<le> end_idx 1 32 31 \<and> end_idx 1 32 31 \<le> 1"
    using t[THEN conjunct1, rule_format, of 31] by simp
  show ?thesis using W a t[THEN conjunct2, THEN conjunct1] by (intro conjI) simp_all
qed

end
